theory Spec2Isabelle
  imports
    Main
    "HOL-Library.Word"
    "HOL-Library.Char_ord"
    "HOL-Library.List_Lexorder"
    "HOL-Library.AList"
    "HOL-Library.Sublist"
begin

unbundle bit_operations_syntax


section \<open>Strings\<close>

text \<open>
  A Go string is a sequence of bytes: \<^typ>\<open>string\<close>. The order on strings used by
  \<^verbatim>\<open>sort.Strings\<close> is the bytewise lexicographic order, which is the order on
  \<^typ>\<open>char list\<close> given by the two library theories imported above.
\<close>

text \<open>\<^verbatim>\<open>strings.Split(s, sep)\<close> for a separator of one byte. The result is never empty:
  the empty string splits into one empty string.\<close>

fun strings_Split :: "string \<Rightarrow> char \<Rightarrow> string list" where
  "strings_Split [] sep = [[]]"
| "strings_Split (c # cs) sep =
     (if c = sep then [] # strings_Split cs sep
      else (case strings_Split cs sep of
              [] \<Rightarrow> [[c]]
            | x # xs \<Rightarrow> (c # x) # xs))"

text \<open>\<^verbatim>\<open>strings.SplitN(s, sep, n)\<close> for a separator of one byte and \<open>n \<ge> 0\<close>: at most
  \<open>n\<close> pieces, the last one the unsplit remainder; no piece at all for \<open>n = 0\<close>.\<close>

fun strings_SplitN :: "string \<Rightarrow> char \<Rightarrow> nat \<Rightarrow> string list" where
  "strings_SplitN s sep 0 = []"
| "strings_SplitN s sep (Suc 0) = [s]"
| "strings_SplitN [] sep (Suc (Suc n)) = [[]]"
| "strings_SplitN (c # cs) sep (Suc (Suc n)) =
     (if c = sep then [] # strings_SplitN cs sep (Suc n)
      else (case strings_SplitN cs sep (Suc (Suc n)) of
              [] \<Rightarrow> [[c]]
            | x # xs \<Rightarrow> (c # x) # xs))"

text \<open>\<^verbatim>\<open>strings.Contains(s, substr)\<close>.\<close>

fun strings_Contains :: "string \<Rightarrow> string \<Rightarrow> bool" where
  "strings_Contains [] substr = (substr = [])"
| "strings_Contains (c # cs) substr =
     (take (length substr) (c # cs) = substr \<or> strings_Contains cs substr)"

text \<open>\<^verbatim>\<open>strings.Join(elems, sep)\<close>.\<close>

fun strings_Join :: "string list \<Rightarrow> string \<Rightarrow> string" where
  "strings_Join [] sep = []"
| "strings_Join [e] sep = e"
| "strings_Join (e # f # es) sep = e @ sep @ strings_Join (f # es) sep"

text \<open>The white space of \<^verbatim>\<open>unicode.IsSpace\<close> among the ASCII bytes: tab, line feed,
  vertical tab, form feed, carriage return and space. The white space characters beyond
  ASCII (several bytes each in UTF-8) are outside the model.\<close>

definition isSpace :: "char \<Rightarrow> bool" where
  "isSpace c = (c = CHR 0x09 \<or> c = CHR 0x0A \<or> c = CHR 0x0B \<or> c = CHR 0x0C
                \<or> c = CHR 0x0D \<or> c = CHR '' '')"

text \<open>\<^verbatim>\<open>strings.Fields(s)\<close>: the maximal runs of bytes that are not white space, in
  order. \<open>fields_from cur s\<close> scans \<open>s\<close> with the field \<open>cur\<close> open.\<close>

fun fields_from :: "string \<Rightarrow> string \<Rightarrow> string list" where
  "fields_from cur [] = (if cur = [] then [] else [cur])"
| "fields_from cur (c # cs) =
     (if isSpace c then (if cur = [] then fields_from [] cs else cur # fields_from [] cs)
      else fields_from (cur @ [c]) cs)"

definition strings_Fields :: "string \<Rightarrow> string list" where
  "strings_Fields s = fields_from [] s"

text \<open>The lines \<^verbatim>\<open>bufio.Scanner\<close> yields with its default split function
  \<^verbatim>\<open>ScanLines\<close>: the text between line feeds, one trailing carriage return of each
  line dropped, and no empty line after a final line feed. The scanner's limit on the
  length of a line (\<^verbatim>\<open>bufio.MaxScanTokenSize\<close>) is outside the model.\<close>

definition dropCR :: "string \<Rightarrow> string" where
  "dropCR l = (if l \<noteq> [] \<and> last l = CHR 0x0D then butlast l else l)"

fun scan_from :: "string \<Rightarrow> string \<Rightarrow> string list" where
  "scan_from cur [] = (if cur = [] then [] else [dropCR cur])"
| "scan_from cur (c # cs) =
     (if c = CHR 0x0A then dropCR cur # scan_from [] cs
      else scan_from (cur @ [c]) cs)"

definition ScanLines :: "string \<Rightarrow> string list" where
  "ScanLines data = scan_from [] data"

section \<open>Path names\<close>

text \<open>
  A cleaned path name is kept as the pair of a flag, whether the name is rooted (begins
  with a slash), and its list of elements. \<open>clean_elems\<close> is the lexical processing of
  \<^verbatim>\<open>filepath.Clean\<close> on the elements of a name split at its slashes: empty elements and
  \<open>.\<close> are dropped, \<open>..\<close> removes the element before it, is dropped at the root and is
  kept at the beginning of a name that is not rooted.
\<close>

type_synonym path = "bool \<times> string list"

fun clean_elems :: "bool \<Rightarrow> string list \<Rightarrow> string list \<Rightarrow> string list" where
  "clean_elems r out [] = out"
| "clean_elems r out (e # es) =
     (if e = [] \<or> e = ''.'' then clean_elems r out es
      else if e = ''..'' then
        (if out \<noteq> [] \<and> last out \<noteq> ''..'' then clean_elems r (butlast out) es
         else if r then clean_elems r out es
         else clean_elems r (out @ [''..'']) es)
      else clean_elems r (out @ [e]) es)"

definition rooted :: "string \<Rightarrow> bool" where
  "rooted s = (case s of [] \<Rightarrow> False | c # _ \<Rightarrow> c = CHR ''/'')"

definition path_of :: "string \<Rightarrow> path" where
  "path_of s = (rooted s, clean_elems (rooted s) [] (strings_Split s CHR ''/''))"

definition path_string :: "path \<Rightarrow> string" where
  "path_string p =
     (case p of (r, es) \<Rightarrow>
        if es = [] then (if r then ''/'' else ''.'')
        else (if r then ''/'' else []) @ strings_Join es ''/'')"

definition filepath_Clean :: "string \<Rightarrow> string" where
  "filepath_Clean s = path_string (path_of s)"

text \<open>\<^verbatim>\<open>filepath.Join(elem...)\<close>: the elements from the first non-empty one on, joined
  by slashes and cleaned; the empty string when every element is empty.\<close>

definition filepath_Join :: "string list \<Rightarrow> string" where
  "filepath_Join elem =
     (case dropWhile (\<lambda>e. e = []) elem of
        [] \<Rightarrow> []
      | es \<Rightarrow> filepath_Clean (strings_Join es ''/''))"

section \<open>Errors and panics\<close>

text \<open>
  A Go \<^verbatim>\<open>error\<close> is either an \<^verbatim>\<open>*os.PathError\<close> (operation, path name and
  the system's error number) or a plain message (\<^verbatim>\<open>fmt.Errorf\<close>, and whatever the
  command runner returns). A function that returns \<^verbatim>\<open>error\<close> returns an
  \<open>error option\<close>, \<open>None\<close> for \<^verbatim>\<open>nil\<close>. A run-time panic is the value \<open>Panic\<close>
  of the result type.
\<close>

datatype errno = ENOENT | EEXIST | ENOTDIR | EISDIR | ELOOP

datatype error = PathError string string errno | ErrorString string

fun errno_Error :: "errno \<Rightarrow> string" where
  "errno_Error ENOENT = ''no such file or directory''"
| "errno_Error EEXIST = ''file exists''"
| "errno_Error ENOTDIR = ''not a directory''"
| "errno_Error EISDIR = ''is a directory''"
| "errno_Error ELOOP = ''too many levels of symbolic links''"

fun error_Error :: "error \<Rightarrow> string" where
  "error_Error (PathError opn name en) = opn @ '' '' @ name @ '': '' @ errno_Error en"
| "error_Error (ErrorString msg) = msg"

fun os_IsNotExist :: "error \<Rightarrow> bool" where
  "os_IsNotExist (PathError opn name en) = (en = ENOENT)"
| "os_IsNotExist (ErrorString msg) = False"

datatype 'a result = Value 'a | Panic string

text \<open>Indexing a slice: out of range it panics.\<close>

definition index :: "'a list \<Rightarrow> nat \<Rightarrow> 'a result" where
  "index xs i =
     (if i < length xs then Value (xs ! i) else Panic ''runtime error: index out of range'')"

section \<open>The file system\<close>

text \<open>
  The file system is a table from cleaned path names to nodes, and a clock. A regular
  file has its content, permission bits, access time and modification time; a directory
  its permission bits and modification time; a symbolic link its target and modification
  time. A name is looked up as it stands: the directories on the way to a node are
  directories, not links to directories, and a name below a regular file is absent.
  \<^verbatim>\<open>os.Stat\<close> and the operations that open a file follow a link named by the whole
  path, up to \<open>MAXSYMLINKS\<close> times. Permissions are never refused, the file creation
  mask is zero and the clock stands still during a copy.
\<close>

type_synonym FileMode = "32 word"

definition ModeDir :: FileMode where
  "ModeDir = 0x80000000"

definition ModeSymlink :: FileMode where
  "ModeSymlink = 0x8000000"

definition ModePerm :: FileMode where
  "ModePerm = 0x1FF"

datatype node =
    File string FileMode int int
  | Dir FileMode int
  | Symlink string int

record FS =
  nodes :: "(path \<times> node) list"
  clock :: int

record FileInfo =
  Name :: string
  Mode :: FileMode
  ModTime :: int

definition IsDir :: "FileInfo \<Rightarrow> bool" where
  "IsDir fi = (Mode fi AND ModeDir \<noteq> 0)"

definition lookup :: "FS \<Rightarrow> path \<Rightarrow> node option" where
  "lookup fs k = map_of (nodes fs) k"

definition store :: "path \<Rightarrow> node \<Rightarrow> FS \<Rightarrow> FS" where
  "store k nd fs = fs\<lparr>nodes := AList.update k nd (nodes fs)\<rparr>"

definition parent :: "path \<Rightarrow> path" where
  "parent k = (fst k, butlast (snd k))"

definition child :: "path \<Rightarrow> string \<Rightarrow> path" where
  "child k n = (fst k, snd k @ [n])"

definition under :: "path \<Rightarrow> path \<Rightarrow> bool" where
  "under k q = (fst q = fst k \<and> take (length (snd k)) (snd q) = snd k)"

definition filepath_Base :: "path \<Rightarrow> string" where
  "filepath_Base k = (if snd k = [] then path_string k else last (snd k))"

fun fileinfo :: "string \<Rightarrow> node \<Rightarrow> FileInfo" where
  "fileinfo n (File c p a m) = \<lparr>Name = n, Mode = p AND ModePerm, ModTime = m\<rparr>"
| "fileinfo n (Dir p m) = \<lparr>Name = n, Mode = ModeDir OR (p AND ModePerm), ModTime = m\<rparr>"
| "fileinfo n (Symlink t m) = \<lparr>Name = n, Mode = ModeSymlink OR ModePerm, ModTime = m\<rparr>"

text \<open>The node a link's target names: the target as it stands when it is rooted, and
  read from the link's directory otherwise.\<close>

definition link_target :: "path \<Rightarrow> string \<Rightarrow> path" where
  "link_target k t =
     (if rooted t then path_of t else path_of (path_string (parent k) @ ''/'' @ t))"

fun follow :: "nat \<Rightarrow> FS \<Rightarrow> path \<Rightarrow> errno + path" where
  "follow 0 fs k = (case lookup fs k of Some (Symlink t m) \<Rightarrow> Inl ELOOP | _ \<Rightarrow> Inr k)"
| "follow (Suc n) fs k =
     (case lookup fs k of Some (Symlink t m) \<Rightarrow> follow n fs (link_target k t) | _ \<Rightarrow> Inr k)"

definition MAXSYMLINKS :: nat where
  "MAXSYMLINKS = 40"

definition stat_node :: "FS \<Rightarrow> path \<Rightarrow> errno + node" where
  "stat_node fs k =
     (case follow MAXSYMLINKS fs k of
        Inl en \<Rightarrow> Inl en
      | Inr k' \<Rightarrow> (case lookup fs k' of None \<Rightarrow> Inl ENOENT | Some nd \<Rightarrow> Inr nd))"

definition os_Stat :: "string \<Rightarrow> FS \<Rightarrow> error + FileInfo" where
  "os_Stat name fs =
     (case stat_node fs (path_of name) of
        Inl en \<Rightarrow> Inl (PathError ''stat'' name en)
      | Inr nd \<Rightarrow> Inr (fileinfo (filepath_Base (path_of name)) nd))"

text \<open>\<^verbatim>\<open>os.Mkdir\<close>: the name must be new and its parent a directory.\<close>

definition mkdir_node :: "path \<Rightarrow> FileMode \<Rightarrow> FS \<Rightarrow> error option \<times> FS" where
  "mkdir_node k perm fs =
     (case lookup fs k of
        Some nd \<Rightarrow> (Some (PathError ''mkdir'' (path_string k) EEXIST), fs)
      | None \<Rightarrow>
          (case lookup fs (parent k) of
             None \<Rightarrow> (Some (PathError ''mkdir'' (path_string k) ENOENT), fs)
           | Some (Dir p m) \<Rightarrow> (None, store k (Dir (perm AND ModePerm) (clock fs)) fs)
           | Some other \<Rightarrow> (Some (PathError ''mkdir'' (path_string k) ENOTDIR), fs)))"

fun is_dir :: "node \<Rightarrow> bool" where
  "is_dir (Dir p m) = True"
| "is_dir (File c p a m) = False"
| "is_dir (Symlink t m) = False"

text \<open>\<^verbatim>\<open>os.MkdirAll\<close>: nothing to do when the name is a directory, an error when it is
  something else; otherwise the parent is made first (when the name has one that is not
  the root or the working directory), then the directory itself. The function works on
  the cleaned name, so the path names inside its errors are cleaned ones.\<close>

function mkdirAll :: "path \<Rightarrow> FileMode \<Rightarrow> FS \<Rightarrow> error option \<times> FS" where
  "mkdirAll k perm fs =
     (case stat_node fs k of
        Inr nd \<Rightarrow>
          if is_dir nd then (None, fs)
          else (Some (PathError ''mkdir'' (path_string k) ENOTDIR), fs)
      | Inl en \<Rightarrow>
          (case (if 2 \<le> length (snd k) then mkdirAll (parent k) perm fs else (None, fs)) of
             (Some err, fs1) \<Rightarrow> (Some err, fs1)
           | (None, fs1) \<Rightarrow>
               (case mkdir_node k perm fs1 of
                  (None, fs2) \<Rightarrow> (None, fs2)
                | (Some err, fs2) \<Rightarrow>
                    (case lookup fs2 k of
                       Some (Dir p m) \<Rightarrow> (None, fs2)
                     | _ \<Rightarrow> (Some err, fs2)))))"
  by pat_completeness auto
termination
  by (relation "measure (\<lambda>(k, perm, fs). length (snd k))") (auto simp: parent_def)

declare mkdirAll.simps [simp del]

definition os_MkdirAll :: "string \<Rightarrow> FileMode \<Rightarrow> FS \<Rightarrow> error option \<times> FS" where
  "os_MkdirAll name perm fs = mkdirAll (path_of name) perm fs"

text \<open>\<^verbatim>\<open>os.RemoveAll\<close>: the node and everything below it go; a link is removed, not
  followed; an absent name is no error.\<close>

definition os_RemoveAll :: "string \<Rightarrow> FS \<Rightarrow> error option \<times> FS" where
  "os_RemoveAll name fs =
     (None, fs\<lparr>nodes := filter (\<lambda>(q, nd). \<not> under (path_of name) q) (nodes fs)\<rparr>)"

text \<open>\<^verbatim>\<open>ioutil.ReadFile\<close>.\<close>

definition ioutil_ReadFile :: "string \<Rightarrow> FS \<Rightarrow> error + string" where
  "ioutil_ReadFile name fs =
     (case stat_node fs (path_of name) of
        Inl en \<Rightarrow> Inl (PathError ''open'' name en)
      | Inr (File c p a m) \<Rightarrow> Inr c
      | Inr (Dir p m) \<Rightarrow> Inl (PathError ''read'' name EISDIR)
      | Inr (Symlink t m) \<Rightarrow> Inl (PathError ''open'' name ELOOP))"

text \<open>\<^verbatim>\<open>ioutil.ReadDir\<close>: the entries of a directory, each as \<^verbatim>\<open>os.Lstat\<close> reports
  it (a link is not followed), sorted by name.\<close>

definition is_child :: "path \<Rightarrow> path \<Rightarrow> bool" where
  "is_child k q = (fst q = fst k \<and> snd q \<noteq> [] \<and> butlast (snd q) = snd k)"

definition entries :: "FS \<Rightarrow> path \<Rightarrow> FileInfo list" where
  "entries fs k =
     sort_key Name (map (\<lambda>(q, nd). fileinfo (last (snd q)) nd)
                        (filter (\<lambda>(q, nd). is_child k q) (nodes fs)))"

definition ioutil_ReadDir :: "string \<Rightarrow> FS \<Rightarrow> error + FileInfo list" where
  "ioutil_ReadDir name fs =
     (case follow MAXSYMLINKS fs (path_of name) of
        Inl en \<Rightarrow> Inl (PathError ''open'' name en)
      | Inr k \<Rightarrow>
          (case lookup fs k of
             None \<Rightarrow> Inl (PathError ''open'' name ENOENT)
           | Some (Dir p m) \<Rightarrow> Inr (entries fs k)
           | Some other \<Rightarrow> Inl (PathError ''readdirent'' name ENOTDIR)))"

text \<open>Open files. \<^verbatim>\<open>os.Open\<close> and \<^verbatim>\<open>os.Create\<close> return a handle on a node: the
  node's name in the table. \<^verbatim>\<open>os.Create\<close> makes an empty file with mode 0666, or
  truncates the file that is there. \<^verbatim>\<open>io.Copy\<close> reads the source through its handle
  at the time of the copy. \<^verbatim>\<open>Sync\<close> does not fail.\<close>

definition os_Open :: "string \<Rightarrow> FS \<Rightarrow> error + path" where
  "os_Open name fs =
     (case follow MAXSYMLINKS fs (path_of name) of
        Inl en \<Rightarrow> Inl (PathError ''open'' name en)
      | Inr k \<Rightarrow>
          (case lookup fs k of
             None \<Rightarrow> Inl (PathError ''open'' name ENOENT)
           | Some nd \<Rightarrow> Inr k))"

definition os_Create :: "string \<Rightarrow> FS \<Rightarrow> (error + path) \<times> FS" where
  "os_Create name fs =
     (case follow MAXSYMLINKS fs (path_of name) of
        Inl en \<Rightarrow> (Inl (PathError ''open'' name en), fs)
      | Inr k \<Rightarrow>
          (case lookup fs k of
             Some (File c p a m) \<Rightarrow> (Inr k, store k (File [] p a (clock fs)) fs)
           | Some (Dir p m) \<Rightarrow> (Inl (PathError ''open'' name EISDIR), fs)
           | Some (Symlink t m) \<Rightarrow> (Inl (PathError ''open'' name ELOOP), fs)
           | None \<Rightarrow>
               (case lookup fs (parent k) of
                  Some (Dir p m) \<Rightarrow>
                    (Inr k, store k (File [] 0x1B6 (clock fs) (clock fs)) fs)
                | Some other \<Rightarrow> (Inl (PathError ''open'' name ENOTDIR), fs)
                | None \<Rightarrow> (Inl (PathError ''open'' name ENOENT), fs))))"

definition io_Copy :: "path \<Rightarrow> path \<Rightarrow> FS \<Rightarrow> error option \<times> FS" where
  "io_Copy out inp fs =
     (case lookup fs inp of
        Some (File c p a m) \<Rightarrow>
          (case lookup fs out of
             Some (File c' p' a' m') \<Rightarrow> (None, store out (File c p' a' (clock fs)) fs)
           | _ \<Rightarrow> (Some (PathError ''write'' (path_string out) ENOENT), fs))
      | Some (Dir p m) \<Rightarrow> (Some (PathError ''read'' (path_string inp) EISDIR), fs)
      | _ \<Rightarrow> (Some (PathError ''read'' (path_string inp) ENOENT), fs))"

definition File_Sync :: "path \<Rightarrow> FS \<Rightarrow> error option" where
  "File_Sync out fs = None"

text \<open>\<^verbatim>\<open>os.Chmod\<close> sets the permission bits, \<^verbatim>\<open>os.Chtimes\<close> the access and the
  modification time; both follow a link.\<close>

definition os_Chmod :: "string \<Rightarrow> FileMode \<Rightarrow> FS \<Rightarrow> error option \<times> FS" where
  "os_Chmod name mode fs =
     (case follow MAXSYMLINKS fs (path_of name) of
        Inl en \<Rightarrow> (Some (PathError ''chmod'' name en), fs)
      | Inr k \<Rightarrow>
          (case lookup fs k of
             Some (File c p a m) \<Rightarrow> (None, store k (File c (mode AND ModePerm) a m) fs)
           | Some (Dir p m) \<Rightarrow> (None, store k (Dir (mode AND ModePerm) m) fs)
           | _ \<Rightarrow> (Some (PathError ''chmod'' name ENOENT), fs)))"

definition os_Chtimes :: "string \<Rightarrow> int \<Rightarrow> int \<Rightarrow> FS \<Rightarrow> error option \<times> FS" where
  "os_Chtimes name atime mtime fs =
     (case follow MAXSYMLINKS fs (path_of name) of
        Inl en \<Rightarrow> (Some (PathError ''chtimes'' name en), fs)
      | Inr k \<Rightarrow>
          (case lookup fs k of
             Some (File c p a m) \<Rightarrow> (None, store k (File c p atime mtime) fs)
           | Some (Dir p m) \<Rightarrow> (None, store k (Dir p mtime) fs)
           | _ \<Rightarrow> (Some (PathError ''chtimes'' name ENOENT), fs)))"

section \<open>The directory cache transfer: copyFile and copyDir\<close>

definition copyFile :: "string \<Rightarrow> string \<Rightarrow> FS \<Rightarrow> error option \<times> FS" where
  "copyFile src dst fs =
     (case os_Open src fs of
        Inl err \<Rightarrow> (Some err, fs)
      | Inr inp \<Rightarrow>
          (case os_Create dst fs of
             (Inl err, fs1) \<Rightarrow> (Some err, fs1)
           | (Inr out, fs1) \<Rightarrow>
               (case io_Copy out inp fs1 of
                  (Some err, fs2) \<Rightarrow> (Some err, fs2)
                | (None, fs2) \<Rightarrow>
                    (case File_Sync out fs2 of
                       Some err \<Rightarrow> (Some err, fs2)
                     | None \<Rightarrow>
                         (case os_Stat src fs2 of
                            Inl err \<Rightarrow> (Some err, fs2)
                          | Inr st \<Rightarrow>
                              (case os_Chmod dst (Mode st) fs2 of
                                 (Some err, fs3) \<Rightarrow> (Some err, fs3)
                               | (None, fs3) \<Rightarrow>
                                   (case os_Chtimes dst (ModTime st) (ModTime st) fs3 of
                                      (Some err, fs4) \<Rightarrow> (Some err, fs4)
                                    | (None, fs4) \<Rightarrow> (None, fs4))))))))"

text \<open>
  \<open>copyDir\<close> calls itself on every subdirectory, and reads the directory it copies while
  it writes the copy, so it need not end (a destination inside the source is copied into
  itself for ever). The first argument bounds the depth of the calls: \<open>None\<close> says the
  bound was reached. \<open>copyDir_files\<close> is the loop over the entries.
\<close>

fun copyDir :: "nat \<Rightarrow> string \<Rightarrow> string \<Rightarrow> FS \<Rightarrow> (error option \<times> FS) option"
  and copyDir_files ::
    "nat \<Rightarrow> string \<Rightarrow> string \<Rightarrow> FileInfo list \<Rightarrow> FS \<Rightarrow> (error option \<times> FS) option"
where
  "copyDir 0 src0 dst0 fs = None"
| "copyDir (Suc n) src0 dst0 fs =
     (let src = filepath_Clean src0; dst = filepath_Clean dst0 in
      case os_Stat src fs of
        Inl err \<Rightarrow> Some (Some err, fs)
      | Inr si \<Rightarrow>
          if \<not> IsDir si then Some (Some (ErrorString ''source is not a directory''), fs)
          else
            (case os_Stat dst fs of
               Inr di \<Rightarrow> Some (Some (ErrorString ''destination already exists''), fs)
             | Inl err \<Rightarrow>
                 if \<not> os_IsNotExist err then Some (Some err, fs)
                 else
                   (case os_MkdirAll dst (Mode si) fs of
                      (Some err, fs1) \<Rightarrow> Some (Some err, fs1)
                    | (None, fs1) \<Rightarrow>
                        (case ioutil_ReadDir src fs1 of
                           Inl err \<Rightarrow> Some (Some err, fs1)
                         | Inr files \<Rightarrow> copyDir_files n src dst files fs1))))"
| "copyDir_files n src dst [] fs = Some (None, fs)"
| "copyDir_files n src dst (f # files) fs =
     (let srcPath = filepath_Join [src, Name f]; dstPath = filepath_Join [dst, Name f] in
      if IsDir f then
        (case copyDir n srcPath dstPath fs of
           None \<Rightarrow> None
         | Some (Some err, fs1) \<Rightarrow> Some (Some err, fs1)
         | Some (None, fs1) \<Rightarrow> copyDir_files n src dst files fs1)
      else if Mode f AND ModeSymlink \<noteq> 0 then copyDir_files n src dst files fs
      else
        (case copyFile srcPath dstPath fs of
           (Some err, fs1) \<Rightarrow> Some (Some err, fs1)
         | (None, fs1) \<Rightarrow> copyDir_files n src dst files fs1))"

section \<open>The build-argument scanner: buildArgs\<close>

text \<open>The loop over the scanned lines, with the arguments found so far. \<open>parts[0]\<close>,
  \<open>parts[1]\<close> and the first piece of the split are slice accesses.\<close>

fun buildArgs_scan :: "string list \<Rightarrow> string list \<Rightarrow> string list result" where
  "buildArgs_scan args [] = Value args"
| "buildArgs_scan args (text # rest) =
     (let parts = strings_Fields text in
      if length parts < 1 then buildArgs_scan args rest
      else
        (case index parts 0 of
           Panic msg \<Rightarrow> Panic msg
         | Value p0 \<Rightarrow>
             if p0 = ''ARG'' then
               (case index parts 1 of
                  Panic msg \<Rightarrow> Panic msg
                | Value p1 \<Rightarrow>
                    (case index (strings_SplitN p1 CHR ''='' 2) 0 of
                       Panic msg \<Rightarrow> Panic msg
                     | Value name \<Rightarrow> buildArgs_scan (args @ [name]) rest))
             else buildArgs_scan args rest))"

definition buildArgs :: "string \<Rightarrow> FS \<Rightarrow> (error + string list) result" where
  "buildArgs dockerfile fs =
     (case ioutil_ReadFile dockerfile fs of
        Inl err \<Rightarrow> Value (Inl err)
      | Inr data \<Rightarrow>
          (case buildArgs_scan [] (ScanLines data) of
             Panic msg \<Rightarrow> Panic msg
           | Value args \<Rightarrow> Value (Inr args)))"

section \<open>The manifest's services and the collaborators of Build\<close>

text \<open>The fields of a service that Build reads. The build section of a service is a
  record of its own; its fields \<open>Dockerfile\<close> and the service's field \<open>Build\<close> carry a
  prefix here.\<close>

record ServiceBuild =
  Context :: string
  Build_Dockerfile :: string
  Args :: "(string \<times> string) list"

record Service =
  Service_Name :: string
  Image :: string
  Dockerfile :: string
  Service_Build :: ServiceBuild

record BuildOptions =
  Cache :: bool
  CacheDir :: string
  Environment :: "string \<rightharpoonup> string"
  Options_Service :: string
  Verbose :: bool

record RunnerOptions =
  Runner_Verbose :: bool
  StreamHandlers :: "(string \<Rightarrow> string) list"

text \<open>Modelled from the spec: \<open>Docker\<close> and \<open>coalesce\<close> are functions of the package
  that are not among the source files. The spec's external interfaces give the commands
  to the container build engine by their argument lists (``\<open>tag <source-tag> <dest-tag>\<close>'',
  ``\<open>pull <image-reference>\<close>'', ...), so a command is its argument list; and a value
  ``defaults to'' another when it is empty.\<close>

datatype Cmd = Docker "string list"

definition coalesce :: "string \<Rightarrow> string \<Rightarrow> string" where
  "coalesce s d = (if s = [] then d else s)"

text \<open>
  Everything else Build calls and the source files do not define is a parameter: the
  run order of the manifest's services, a service's destination tag and the content hash
  of its build section, the command runner, the execution of a process
  (\<^verbatim>\<open>exec.Command(...).Run()\<close>) and the order in which \<^verbatim>\<open>range\<close> visits the entries
  of the map of pulls. The runner and the processes act on the file system and on the
  rest of the world, of type \<open>'x\<close>.
\<close>

record 'x Env =
  runOrder :: "string \<Rightarrow> error + Service list"
  Tag :: "Service \<Rightarrow> string \<Rightarrow> string"
  Hash :: "ServiceBuild \<Rightarrow> string"
  Run :: "Cmd \<Rightarrow> RunnerOptions \<Rightarrow> FS \<times> 'x \<Rightarrow> error option \<times> (FS \<times> 'x)"
  CombinedOutput :: "Cmd \<Rightarrow> FS \<times> 'x \<Rightarrow> (error + string) \<times> (FS \<times> 'x)"
  exec_Run :: "string list \<Rightarrow> FS \<times> 'x \<Rightarrow> error option \<times> (FS \<times> 'x)"
  range_order :: "(string \<times> string list) list \<Rightarrow> (string \<times> string list) list"

text \<open>What a run does to the world is recorded as it happens: the commands given to the
  runner, the processes executed and the lines Build itself sends to the stream \<open>s\<close>.\<close>

datatype Event =
    RunEv Cmd RunnerOptions
  | OutputEv Cmd
  | ExecEv "string list"
  | SendEv string

record 'x World =
  disk :: FS
  ext :: 'x
  trace :: "Event list"

definition send :: "string \<Rightarrow> 'x World \<Rightarrow> 'x World" where
  "send str w = w\<lparr>trace := trace w @ [SendEv str]\<rparr>"

definition DefaultRunner_Run ::
  "'x Env \<Rightarrow> Cmd \<Rightarrow> RunnerOptions \<Rightarrow> 'x World \<Rightarrow> error option \<times> 'x World" where
  "DefaultRunner_Run E cmd ropts w =
     (case Run E cmd ropts (disk w, ext w) of
        (r, (d, x)) \<Rightarrow> (r, \<lparr>disk = d, ext = x, trace = trace w @ [RunEv cmd ropts]\<rparr>))"

definition DefaultRunner_CombinedOutput ::
  "'x Env \<Rightarrow> Cmd \<Rightarrow> 'x World \<Rightarrow> (error + string) \<times> 'x World" where
  "DefaultRunner_CombinedOutput E cmd w =
     (case CombinedOutput E cmd (disk w, ext w) of
        (r, (d, x)) \<Rightarrow> (r, \<lparr>disk = d, ext = x, trace = trace w @ [OutputEv cmd]\<rparr>))"

definition exec_Command_Run ::
  "'x Env \<Rightarrow> string list \<Rightarrow> 'x World \<Rightarrow> error option \<times> 'x World" where
  "exec_Command_Run E argv w =
     (case exec_Run E argv (disk w, ext w) of
        (r, (d, x)) \<Rightarrow> (r, \<lparr>disk = d, ext = x, trace = trace w @ [ExecEv argv]\<rparr>))"

text \<open>Go maps with string keys, as association lists: a read of a missing key gives the
  zero value.\<close>

definition tags_of :: "(string \<times> string list) list \<Rightarrow> string \<Rightarrow> string list" where
  "tags_of m k = (case map_of m k of None \<Rightarrow> [] | Some v \<Rightarrow> v)"

definition value_of :: "(string \<times> string) list \<Rightarrow> string \<Rightarrow> string" where
  "value_of m k = (case map_of m k of None \<Rightarrow> [] | Some v \<Rightarrow> v)"

section \<open>Build\<close>

subsection \<open>The plan: services to pull and services to build\<close>

text \<open>The first loop of Build. The map \<open>pulls\<close> is an association list in the order in
  which its keys were first set. (The loop also sets a variable \<open>dockerFile\<close> that nothing
  reads.)\<close>

fun Build_plan ::
  "'x Env \<Rightarrow> string \<Rightarrow> Service list \<Rightarrow> (string \<times> string list) list \<Rightarrow> Service list
    \<Rightarrow> ((string \<times> string list) list \<times> Service list) result" where
  "Build_plan E appName [] pulls builds = Value (pulls, builds)"
| "Build_plan E appName (service # services) pulls builds =
     (if Image service \<noteq> [] then
        (let img = Image service;
             sp = strings_Split img CHR ''/'' in
         case index sp (length sp - 1) of
           Panic msg \<Rightarrow> Panic msg
         | Value seg \<Rightarrow>
             (let img = (if \<not> strings_Contains seg '':'' then img @ '':latest'' else img)
              in Build_plan E appName services
                   (AList.update img (tags_of pulls img @ [Tag E service appName]) pulls)
                   builds))
      else Build_plan E appName services pulls (builds @ [service]))"

subsection \<open>One service to build\<close>

text \<open>Lines 71 to 90: the cache-store entry of the service's hash, when there is one, is
  copied to the local staging directory. Nothing here ends the run; \<open>None\<close> says that
  \<open>copyDir\<close> reached its bound.\<close>

definition restore_cache ::
  "'x Env \<Rightarrow> nat \<Rightarrow> string \<Rightarrow> BuildOptions \<Rightarrow> Service \<Rightarrow> 'x World \<Rightarrow> 'x World option" where
  "restore_cache E n dir opts service w =
     (if CacheDir opts \<noteq> [] then
        (let rcd = filepath_Join [CacheDir opts, Hash E (Service_Build service)];
             lcd = filepath_Join [dir, ''.cache'', ''build'']
         in case os_Stat rcd (disk w) of
              Inl err \<Rightarrow> Some w
            | Inr fi \<Rightarrow>
                (case os_RemoveAll lcd (disk w) of
                   (r, d1) \<Rightarrow>
                     (let w1 = (case r of
                                  Some err \<Rightarrow> send (''cache error: '' @ error_Error err) (w\<lparr>disk := d1\<rparr>)
                                | None \<Rightarrow> w\<lparr>disk := d1\<rparr>)
                      in case copyDir n rcd lcd (disk w1) of
                           None \<Rightarrow> None
                         | Some (Some err, d2) \<Rightarrow>
                             if \<not> strings_Contains (error_Error err) ''no such file or directory''
                             then Some (send (''cache error: '' @ error_Error err) (w1\<lparr>disk := d2\<rparr>))
                             else Some (w1\<lparr>disk := d2\<rparr>)
                         | Some (None, d2) \<Rightarrow> Some (w1\<lparr>disk := d2\<rparr>))))
      else Some w)"

text \<open>Lines 92 to 107: the service's build arguments, then the value the environment
  has for every argument the build-definition file declares.\<close>

definition merge_args ::
  "(string \<times> string) list \<Rightarrow> string list \<Rightarrow> (string \<rightharpoonup> string) \<Rightarrow> (string \<times> string) list" where
  "merge_args service_args dba environment =
     fold (\<lambda>ba bargs. case environment ba of Some v \<Rightarrow> AList.update ba v bargs | None \<Rightarrow> bargs)
          dba
          (fold (\<lambda>(k, v) bargs. AList.update k v bargs) service_args [])"

text \<open>Lines 60 to 64 and 109 to 123: the arguments of the build command.\<close>

definition build_command ::
  "BuildOptions \<Rightarrow> (string \<times> string) list \<Rightarrow> string \<Rightarrow> string \<Rightarrow> string \<Rightarrow> string list" where
  "build_command opts bargs dockerFile tag context =
     (let args = [''build''];
          args = (if \<not> Cache opts then args @ [''--no-cache''] else args);
          bargNames = sort (map fst bargs);
          args = fold (\<lambda>name args. args @ [''--build-arg'', name @ ''='' @ value_of bargs name])
                      bargNames args;
          args = args @ [''-f'', dockerFile];
          args = args @ [''-t'', tag];
          args = args @ [context]
      in args)"

text \<open>The stream handler of the build command and of the cache commands.\<close>

definition cache_handler :: "string \<Rightarrow> string" where
  "cache_handler str =
     (if strings_Contains str ''/var/cache/build: no such file or directory'' then [] else str)"

definition build_ropts :: "BuildOptions \<Rightarrow> RunnerOptions" where
  "build_ropts opts = \<lparr>Runner_Verbose = Verbose opts, StreamHandlers = [cache_handler]\<rparr>"

definition tag_ropts :: "BuildOptions \<Rightarrow> RunnerOptions" where
  "tag_ropts opts = \<lparr>Runner_Verbose = Verbose opts, StreamHandlers = []\<rparr>"

text \<open>Lines 142 to 158: the cache path of the image just built is written back to the
  cache store.\<close>

definition write_back ::
  "'x Env \<Rightarrow> BuildOptions \<Rightarrow> string \<Rightarrow> string \<Rightarrow> 'x World \<Rightarrow> 'x World" where
  "write_back E opts hash tag w =
     (if CacheDir opts \<noteq> [] then
        (case DefaultRunner_Run E (Docker [''create'', ''--name'', hash, tag]) (build_ropts opts) w of
           (r1, w1) \<Rightarrow>
             (let w2 = (case r1 of
                          Some err \<Rightarrow> send (''cache error: '' @ error_Error err) w1
                        | None \<Rightarrow> w1)
              in case exec_Command_Run E [''rm'', ''-rf'', filepath_Join [CacheDir opts, hash]] w2 of
                   (r2, w3) \<Rightarrow>
                     (case DefaultRunner_Run E
                             (Docker [''cp'', hash @ '':/var/cache/build'',
                                      filepath_Join [CacheDir opts, hash]])
                             (build_ropts opts) w3 of
                        (r3, w4) \<Rightarrow>
                          (let w5 = (case r3 of
                                       Some err \<Rightarrow> send ''ignoring build cache'' w4
                                     | None \<Rightarrow> w4)
                           in case DefaultRunner_Run E (Docker [''rm'', hash]) (build_ropts opts) w5 of
                                (r4, w6) \<Rightarrow>
                                  (case r4 of
                                     Some err \<Rightarrow> send (''cache error: '' @ error_Error err) w6
                                   | None \<Rightarrow> w6)))))
      else w)"

text \<open>The body of the second loop, lines 53 to 160, for one service with the memo
  \<open>buildCache\<close>. The result is what Build returns when the body returns (\<open>Some err\<close>), or
  \<open>None\<close> when the loop goes on, with the memo and the world after the body.\<close>

definition build_service ::
  "'x Env \<Rightarrow> nat \<Rightarrow> string \<Rightarrow> string \<Rightarrow> BuildOptions \<Rightarrow> Service \<Rightarrow> (string \<rightharpoonup> string)
    \<Rightarrow> 'x World \<Rightarrow> (error option result \<times> (string \<rightharpoonup> string) \<times> 'x World) option" where
  "build_service E n dir appName opts service buildCache w =
     (case buildCache (Hash E (Service_Build service)) of
        Some bc \<Rightarrow>
          (case DefaultRunner_Run E (Docker [''tag'', bc, Tag E service appName]) (tag_ropts opts) w of
             (Some err, w1) \<Rightarrow>
               Some (Value (Some (ErrorString (''build error: '' @ error_Error err))), buildCache, w1)
           | (None, w1) \<Rightarrow> Some (Value None, buildCache, w1))
      | None \<Rightarrow>
          (let context = filepath_Join [dir, coalesce (Context (Service_Build service)) ''.''];
               dockerFile = coalesce (Dockerfile service) ''Dockerfile'';
               dockerFile = coalesce (Build_Dockerfile (Service_Build service)) dockerFile;
               dockerFile = filepath_Join [context, dockerFile]
           in case restore_cache E n dir opts service w of
                None \<Rightarrow> None
              | Some w1 \<Rightarrow>
                  (case buildArgs dockerFile (disk w1) of
                     Panic msg \<Rightarrow> Some (Panic msg, buildCache, w1)
                   | Value (Inl err) \<Rightarrow> Some (Value (Some err), buildCache, w1)
                   | Value (Inr dba) \<Rightarrow>
                       (let bargs = merge_args (Args (Service_Build service)) dba (Environment opts);
                            args = build_command opts bargs dockerFile (Tag E service appName) context
                        in case DefaultRunner_Run E (Docker args) (build_ropts opts) w1 of
                             (Some err, w2) \<Rightarrow>
                               Some (Value (Some (ErrorString (''build error: '' @ error_Error err))),
                                     buildCache, w2)
                           | (None, w2) \<Rightarrow>
                               Some (Value None,
                                     buildCache(Hash E (Service_Build service) \<mapsto> Tag E service appName),
                                     write_back E opts (Hash E (Service_Build service))
                                       (Tag E service appName) w2)))))"

fun Build_builds ::
  "'x Env \<Rightarrow> nat \<Rightarrow> string \<Rightarrow> string \<Rightarrow> BuildOptions \<Rightarrow> Service list \<Rightarrow> (string \<rightharpoonup> string)
    \<Rightarrow> 'x World \<Rightarrow> (error option result \<times> (string \<rightharpoonup> string) \<times> 'x World) option" where
  "Build_builds E n dir appName opts [] buildCache w = Some (Value None, buildCache, w)"
| "Build_builds E n dir appName opts (service # builds) buildCache w =
     (case build_service E n dir appName opts service buildCache w of
        None \<Rightarrow> None
      | Some (Value None, buildCache1, w1) \<Rightarrow> Build_builds E n dir appName opts builds buildCache1 w1
      | Some (r, buildCache1, w1) \<Rightarrow> Some (r, buildCache1, w1))"

subsection \<open>The images to pull\<close>

text \<open>The loop over the tags of one image, lines 178 to 182.\<close>

fun tag_image :: "'x Env \<Rightarrow> BuildOptions \<Rightarrow> string \<Rightarrow> string list \<Rightarrow> 'x World \<Rightarrow> error option \<times> 'x World" where
  "tag_image E opts img [] w = (None, w)"
| "tag_image E opts img (tag # tags) w =
     (case DefaultRunner_Run E (Docker [''tag'', img, tag]) (tag_ropts opts) w of
        (Some err, w1) \<Rightarrow> (Some (ErrorString (''build error: '' @ error_Error err)), w1)
      | (None, w1) \<Rightarrow> tag_image E opts img tags w1)"

text \<open>The body of the third loop, lines 164 to 182, for one image and its tags.\<close>

definition pull_image ::
  "'x Env \<Rightarrow> BuildOptions \<Rightarrow> string \<Rightarrow> string list \<Rightarrow> 'x World \<Rightarrow> error option \<times> 'x World" where
  "pull_image E opts img tags w =
     (case DefaultRunner_CombinedOutput E (Docker [''images'', ''-q'', img]) w of
        (Inl err, w1) \<Rightarrow> (Some err, w1)
      | (Inr output, w1) \<Rightarrow>
          (if \<not> Cache opts \<or> length output = 0 then
             (case DefaultRunner_Run E (Docker [''pull'', img]) (tag_ropts opts) w1 of
                (Some err, w2) \<Rightarrow> (Some (ErrorString (''build error: '' @ error_Error err)), w2)
              | (None, w2) \<Rightarrow> tag_image E opts img tags w2)
           else tag_image E opts img tags w1))"

fun Build_pulls ::
  "'x Env \<Rightarrow> BuildOptions \<Rightarrow> (string \<times> string list) list \<Rightarrow> 'x World \<Rightarrow> error option \<times> 'x World" where
  "Build_pulls E opts [] w = (None, w)"
| "Build_pulls E opts ((img, tags) # pulls) w =
     (case pull_image E opts img tags w of
        (Some err, w1) \<Rightarrow> (Some err, w1)
      | (None, w1) \<Rightarrow> Build_pulls E opts pulls w1)"

subsection \<open>The whole run\<close>

text \<open>\<open>Build E n dir appName opts w\<close>: the manifest is in the run order \<open>runOrder E\<close>, the
  stream \<open>s\<close> in the trace of the world, and \<open>n\<close> bounds the depth of \<open>copyDir\<close>. The
  result is \<open>None\<close> when that bound was reached, and otherwise what Build returns
  (\<open>Value None\<close> for \<^verbatim>\<open>nil\<close>) or its panic, with the world it leaves.\<close>

definition Build ::
  "'x Env \<Rightarrow> nat \<Rightarrow> string \<Rightarrow> string \<Rightarrow> BuildOptions \<Rightarrow> 'x World
    \<Rightarrow> (error option result \<times> 'x World) option" where
  "Build E n dir appName opts w =
     (case runOrder E (Options_Service opts) of
        Inl err \<Rightarrow> Some (Value (Some err), w)
      | Inr services \<Rightarrow>
          (case Build_plan E appName services [] [] of
             Panic msg \<Rightarrow> Some (Panic msg, w)
           | Value (pulls, builds) \<Rightarrow>
               (case Build_builds E n dir appName opts builds Map.empty w of
                  None \<Rightarrow> None
                | Some (Value None, buildCache, w1) \<Rightarrow>
                    (case Build_pulls E opts (range_order E pulls) w1 of
                       (r, w2) \<Rightarrow> Some (Value r, w2))
                | Some (r, buildCache, w1) \<Rightarrow> Some (r, w1))))"

section \<open>Definitions for the properties\<close>

definition merged :: "(string \<times> string) list \<Rightarrow> string list \<Rightarrow> (string \<rightharpoonup> string) \<Rightarrow> (string \<rightharpoonup> string)" where
  "merged service_args dba environment name =
     (if name \<in> set dba \<and> environment name \<noteq> None then environment name
      else map_of (rev service_args) name)"

fun is_send :: "Event \<Rightarrow> bool" where
  "is_send (SendEv str) = True"
| "is_send ev = False"

fun is_build :: "Event \<Rightarrow> bool" where
  "is_build (RunEv (Docker (a # args)) ropts) = (a = ''build'')"
| "is_build ev = False"

definition first_with :: "'x Env \<Rightarrow> string \<Rightarrow> Service list \<Rightarrow> Service option" where
  "first_with E h services = find (\<lambda>x. Hash E (Service_Build x) = h) services"

definition context_of :: "string \<Rightarrow> Service \<Rightarrow> string" where
  "context_of dir service = filepath_Join [dir, coalesce (Context (Service_Build service)) ''.'']"

definition dockerFile_of :: "string \<Rightarrow> Service \<Rightarrow> string" where
  "dockerFile_of dir service =
     filepath_Join [context_of dir service,
       coalesce (Build_Dockerfile (Service_Build service)) (coalesce (Dockerfile service) ''Dockerfile'')]"

definition hash_of :: "'x Env \<Rightarrow> Service \<Rightarrow> string" where
  "hash_of E service = Hash E (Service_Build service)"

definition build_args_of :: "'x Env \<Rightarrow> string \<Rightarrow> string \<Rightarrow> BuildOptions \<Rightarrow> Service \<Rightarrow> string list \<Rightarrow> string list" where
  "build_args_of E dir appName opts service dba =
     [''build''] @ (if Cache opts then [] else [''--no-cache''])
     @ concat (map (\<lambda>name. [''--build-arg'',
                              name @ ''='' @ the (merged (Args (Service_Build service)) dba (Environment opts) name)])
                   (sorted_list_of_set (dom (merged (Args (Service_Build service)) dba (Environment opts)))))
     @ [''-f'', dockerFile_of dir service, ''-t'', Tag E service appName, context_of dir service]"

definition rcd_of :: "'x Env \<Rightarrow> BuildOptions \<Rightarrow> Service \<Rightarrow> string" where
  "rcd_of E opts service = filepath_Join [CacheDir opts, hash_of E service]"

definition lcd_of :: "string \<Rightarrow> string" where
  "lcd_of dir = filepath_Join [dir, ''.cache'', ''build'']"

text \<open>Commands given to the runner one after the other, up to the first that fails.\<close>

fun run_all :: "'x Env \<Rightarrow> BuildOptions \<Rightarrow> Cmd list \<Rightarrow> 'x World \<Rightarrow> error option \<times> 'x World" where
  "run_all E opts [] w = (None, w)"
| "run_all E opts (cmd # cmds) w =
     (case DefaultRunner_Run E cmd (tag_ropts opts) w of
        (Some err, w1) \<Rightarrow> (Some (ErrorString (''build error: '' @ error_Error err)), w1)
      | (None, w1) \<Rightarrow> run_all E opts cmds w1)"

definition normalized :: "string \<Rightarrow> string" where
  "normalized ref =
     (if CHR '':'' \<in> set (last (strings_Split ref CHR ''/'')) then ref else ref @ '':latest'')"

fun pulled_image :: "Event \<Rightarrow> string option" where
  "pulled_image (OutputEv (Docker [a, b, i])) = (if a = ''images'' \<and> b = ''-q'' then Some i else None)"
| "pulled_image (RunEv (Docker [a, i]) ropts) = (if a = ''pull'' then Some i else None)"
| "pulled_image ev = None"

definition pull_cmds :: "BuildOptions \<Rightarrow> string \<Rightarrow> string list \<Rightarrow> string \<Rightarrow> Cmd list" where
  "pull_cmds opts img tags output =
     (if \<not> Cache opts \<or> output = [] then [Docker [''pull'', img]] else [])
     @ map (\<lambda>tag. Docker [''tag'', img, tag]) tags"

definition plan_pulls ::
  "'x Env \<Rightarrow> string \<Rightarrow> Service list \<Rightarrow> (string \<times> string list) list \<Rightarrow> (string \<times> string list) list" where
  "plan_pulls E appName services pulls =
     fold (\<lambda>service pulls.
             if Image service \<noteq> [] then
               AList.update (normalized (Image service))
                 (tags_of pulls (normalized (Image service)) @ [Tag E service appName]) pulls
             else pulls)
          services pulls"

definition image_free :: "Event \<Rightarrow> bool" where
  "image_free ev = (pulled_image ev = None)"

definition images_among :: "string set \<Rightarrow> Event \<Rightarrow> bool" where
  "images_among S ev = (case pulled_image ev of None \<Rightarrow> True | Some i \<Rightarrow> i \<in> S)"

definition arg_line :: "string \<Rightarrow> bool" where
  "arg_line l = (take 1 (strings_Fields l) = [''ARG''])"

definition bare_arg_line :: "string \<Rightarrow> bool" where
  "bare_arg_line l = (strings_Fields l = [''ARG''])"

definition arg_name :: "string \<Rightarrow> string" where
  "arg_name l = takeWhile (\<lambda>c. c \<noteq> CHR ''='') (strings_Fields l ! 1)"

fun is_link :: "node option \<Rightarrow> bool" where
  "is_link (Some (Symlink t m)) = True"
| "is_link x = False"

definition resolve :: "FS \<Rightarrow> string \<Rightarrow> errno + path" where
  "resolve fs name = follow MAXSYMLINKS fs (path_of name)"

definition valid_name :: "string \<Rightarrow> bool" where
  "valid_name n = (n \<noteq> [] \<and> n \<noteq> ''.'' \<and> n \<noteq> ''..'' \<and> CHR ''/'' \<notin> set n)"

definition proper :: "string \<Rightarrow> bool" where
  "proper e = (e \<noteq> [] \<and> e \<noteq> ''.'' \<and> CHR ''/'' \<notin> set e)"

definition normal :: "path \<Rightarrow> bool" where
  "normal k =
     (list_all proper (snd k) \<and>
      ''..'' \<notin> set (if fst k then snd k else dropWhile (\<lambda>e. e = ''..'') (snd k)))"

text \<open>For the directory copy: the path \<open>rel\<close> below a name, a name that is a directory, a
  well-formed file system (no name twice, every node with valid components and inside a
  directory), and two names neither of which lies below the other.\<close>

definition sub :: "path \<Rightarrow> string list \<Rightarrow> path" where
  "sub k rel = (fst k, snd k @ rel)"

definition dir_at :: "FS \<Rightarrow> path \<Rightarrow> bool" where
  "dir_at fs k = (case lookup fs k of Some (Dir p m) \<Rightarrow> True | _ \<Rightarrow> False)"

definition good :: "FS \<Rightarrow> path \<Rightarrow> bool" where
  "good fs k = (list_all valid_name (snd k) \<and> (snd k = [] \<or> dir_at fs (parent k)))"

definition wf_fs :: "FS \<Rightarrow> bool" where
  "wf_fs fs = (distinct (map fst (nodes fs)) \<and> list_all (\<lambda>(k, nd). good fs k) (nodes fs))"

definition disjoint :: "path \<Rightarrow> path \<Rightarrow> bool" where
  "disjoint k q = (\<not> under k q \<and> \<not> under q k)"

text \<open>What \<^verbatim>\<open>os.MkdirAll\<close> leaves behind: the file system it found, with directories added
  on the way to the name.\<close>

definition made :: "FS \<Rightarrow> FS \<Rightarrow> path \<Rightarrow> bool" where
  "made fs fs' k =
     (wf_fs fs' \<and>
      (\<forall>q. lookup fs' q = lookup fs q \<or> (lookup fs q = None \<and> under q k \<and> dir_at fs' q)) \<and>
      ((\<exists>en. stat_node fs k = Inl en) \<longrightarrow> lookup fs k = None \<and> dir_at fs' k))"

text \<open>\<open>links_skipped\<close>: nothing in the destination where the source had a link.
  \<open>dir_copied n\<close> is what a successful \<open>copyDir\<close> with fuel \<open>n\<close> guarantees, \<open>files_copied\<close>
  the same for the loop over the entries, and \<open>entry_ok\<close> what the loop needs of an entry:
  it is a node of the source directory and nothing is below its name in the destination.\<close>

definition links_skipped :: "FS \<Rightarrow> FS \<Rightarrow> path \<Rightarrow> path \<Rightarrow> bool" where
  "links_skipped fs fs' S D =
     (\<forall>rel. rel \<noteq> [] \<and> is_link (lookup fs (sub S rel)) \<longrightarrow> lookup fs' (sub D rel) = None)"

definition dir_copied :: "nat \<Rightarrow> bool" where
  "dir_copied n =
     (\<forall>src dst fs fs'.
        copyDir n src dst fs = Some (None, fs') \<longrightarrow> wf_fs fs \<longrightarrow>
        disjoint (path_of src) (path_of dst) \<longrightarrow> \<not> is_link (lookup fs (path_of src)) \<longrightarrow>
        list_all valid_name (snd (path_of dst)) \<longrightarrow>
        wf_fs fs' \<and>
        (\<forall>q. \<not> under (path_of dst) q \<longrightarrow>
              lookup fs' q = lookup fs q \<or> (lookup fs q = None \<and> under q (path_of dst))) \<and>
        links_skipped fs fs' (path_of src) (path_of dst))"

definition entry_ok :: "FS \<Rightarrow> path \<Rightarrow> path \<Rightarrow> FileInfo \<Rightarrow> bool" where
  "entry_ok fs S D f =
     (valid_name (Name f) \<and>
      (\<exists>nd. lookup fs (child S (Name f)) = Some nd \<and> f = fileinfo (Name f) nd) \<and>
      (\<forall>q. under (child D (Name f)) q \<longrightarrow> lookup fs q = None))"

definition files_copied :: "FS \<Rightarrow> FS \<Rightarrow> path \<Rightarrow> path \<Rightarrow> FileInfo list \<Rightarrow> bool" where
  "files_copied fs fs' S D files =
     (wf_fs fs' \<and>
      (\<forall>q. (\<forall>f\<in>set files. \<not> under (child D (Name f)) q) \<longrightarrow> lookup fs' q = lookup fs q) \<and>
      (\<forall>f\<in>set files. \<forall>rel. is_link (lookup fs (sub (child S (Name f)) rel)) \<longrightarrow>
          lookup fs' (sub (child D (Name f)) rel) = None))"

text \<open>The tags the plan records for an image reference: the destination tags of the
  services whose normalized reference it is, in the order of the services.\<close>

definition registered_tags :: "'x Env \<Rightarrow> string \<Rightarrow> Service list \<Rightarrow> string \<Rightarrow> string list" where
  "registered_tags E appName services img =
     map (\<lambda>service. Tag E service appName)
         (filter (\<lambda>service. Image service \<noteq> [] \<and> normalized (Image service) = img) services)"

section \<open>Concrete inputs\<close>

text \<open>A service with a name and an image reference and nothing else set; a disk with the
  build-definition file \<open>/app/Dockerfile\<close>; a disk with the file \<open>Dockerfile\<close> in the
  working directory; collaborators whose commands all succeed, with one hash for every
  service; options with the cache on and no cache store.\<close>

definition svc :: "string \<Rightarrow> string \<Rightarrow> Service" where
  "svc name img =
     \<lparr>Service_Name = name, Image = img, Dockerfile = [],
      Service_Build = \<lparr>Context = [], Build_Dockerfile = [], Args = []\<rparr>\<rparr>"

definition app_disk :: "string \<Rightarrow> FS" where
  "app_disk data =
     \<lparr>nodes = [((True, []), Dir 0x1ED 0), ((True, [''app'']), Dir 0x1ED 0),
               ((True, [''app'', ''Dockerfile'']), File data 0x1A4 0 0)],
      clock = 0\<rparr>"

definition dockerfile_disk :: "string \<Rightarrow> FS" where
  "dockerfile_disk data =
     \<lparr>nodes = [((False, []), Dir 0x1ED 0), ((False, [''Dockerfile'']), File data 0x1A4 0 0)],
      clock = 0\<rparr>"

definition E_ok :: "Service list \<Rightarrow> unit Env" where
  "E_ok services =
     \<lparr>runOrder = (\<lambda>target. Inr services),
      Tag = (\<lambda>service appName. appName @ ''/'' @ Service_Name service),
      Hash = (\<lambda>b. ''h''),
      Run = (\<lambda>cmd ropts w. (None, w)),
      CombinedOutput = (\<lambda>cmd w. (Inr ''0123abcd'', w)),
      exec_Run = (\<lambda>argv w. (None, w)),
      range_order = (\<lambda>pulls. pulls)\<rparr>"

definition opts_plain :: BuildOptions where
  "opts_plain =
     \<lparr>Cache = True, CacheDir = [], Environment = Map.empty, Options_Service = [], Verbose = False\<rparr>"

definition world0 :: "FS \<Rightarrow> unit World" where
  "world0 d = \<lparr>disk = d, ext = (), trace = []\<rparr>"

text \<open>The argument lists of the commands in a trace, and the lines sent to the stream.\<close>

fun docker_cmds :: "Event list \<Rightarrow> string list list" where
  "docker_cmds [] = []"
| "docker_cmds (RunEv (Docker args) ropts # evs) = args # docker_cmds evs"
| "docker_cmds (OutputEv (Docker args) # evs) = args # docker_cmds evs"
| "docker_cmds (ev # evs) = docker_cmds evs"

fun sent_lines :: "Event list \<Rightarrow> string list" where
  "sent_lines [] = []"
| "sent_lines (SendEv str # evs) = str # sent_lines evs"
| "sent_lines (ev # evs) = sent_lines evs"

definition abc :: "Service list" where
  "abc = [svc ''a'' [], svc ''b'' [], svc ''c'' []]"

text \<open>Collaborators as \<open>E_ok\<close>, but every command other than a build, a tag or a pull
  fails, and so does every process.\<close>

definition E_cache_fails :: "Service list \<Rightarrow> unit Env" where
  "E_cache_fails services =
     (E_ok services)
       \<lparr>Run := (\<lambda>cmd ropts w.
                  case cmd of
                    Docker args \<Rightarrow>
                      if take 1 args = [''build''] \<or> take 1 args = [''tag''] \<or> take 1 args = [''pull'']
                      then (None, w)
                      else (Some (ErrorString ''exit status 1''), w)),
         exec_Run := (\<lambda>argv w. (Some (ErrorString ''exit status 1''), w))\<rparr>"

definition opts_store :: BuildOptions where
  "opts_store = opts_plain\<lparr>CacheDir := ''/cache''\<rparr>"

text \<open>A disk as \<open>app_disk\<close> with a cache store in which the entry of the hash \<open>h\<close> is a
  regular file.\<close>

definition store_disk :: FS where
  "store_disk =
     \<lparr>nodes = [((True, []), Dir 0x1ED 0), ((True, [''app'']), Dir 0x1ED 0),
               ((True, [''app'', ''Dockerfile'']), File ''FROM x'' 0x1A4 0 0),
               ((True, [''cache'']), Dir 0x1ED 0),
               ((True, [''cache'', ''h'']), File ''junk'' 0x1A4 0 0)],
      clock = 0\<rparr>"

text \<open>A service \<open>web\<close> with two build arguments of its own, a build-definition file that
  declares two arguments, and options with the cache off and an environment that has a
  value for one of the declared arguments.\<close>

definition svc_web :: Service where
  "svc_web =
     \<lparr>Service_Name = ''web'', Image = [], Dockerfile = [],
      Service_Build = \<lparr>Context = [], Build_Dockerfile = [], Args = [(''Z'', ''1''), (''A'', ''2'')]\<rparr>\<rparr>"

definition web_disk :: FS where
  "web_disk = app_disk (''FROM x'' @ [CHR 0x0A] @ ''ARG TOKEN'' @ [CHR 0x0A] @ ''ARG B=1'' @ [CHR 0x0A])"

definition opts_env :: BuildOptions where
  "opts_env = opts_plain\<lparr>Cache := False, Environment := [''TOKEN'' \<mapsto> ''secret'']\<rparr>"

text \<open>Collaborators as \<open>E_ok\<close>, but no image is present locally: the query prints
  nothing.\<close>

definition E_absent :: "Service list \<Rightarrow> unit Env" where
  "E_absent services = (E_ok services)\<lparr>CombinedOutput := (\<lambda>cmd w. (Inr [], w))\<rparr>"

text \<open>Three services with external image references.\<close>

definition redis3 :: "Service list" where
  "redis3 = [svc ''r1'' ''redis'', svc ''r2'' ''redis:1.2'', svc ''r3'' ''registry:5000/redis'']"

text \<open>A disk with the directory \<open>/c\<close>: a file whose access time (5) is later than its
  modification time (3), a link, and a subdirectory with a file and a link.\<close>

definition tree_disk :: FS where
  "tree_disk =
     \<lparr>nodes = [((True, []), Dir 0x1ED 0), ((True, [''c'']), Dir 0x1ED 1),
               ((True, [''c'', ''f'']), File ''hello'' 0x1A4 5 3),
               ((True, [''c'', ''l'']), Symlink ''f'' 2),
               ((True, [''c'', ''d'']), Dir 0x1C0 2),
               ((True, [''c'', ''d'', ''g'']), File ''x'' 0x180 7 8),
               ((True, [''c'', ''d'', ''k'']), Symlink ''/c/f'' 4)],
      clock = 100\<rparr>"

text \<open>Collaborators as \<open>E_absent\<close>, but every pull fails; and three services of which two
  have the same normalized reference.\<close>

definition E_pull_fails :: "Service list \<Rightarrow> unit Env" where
  "E_pull_fails services =
     (E_absent services)
       \<lparr>Run := (\<lambda>cmd ropts w.
                  case cmd of
                    Docker args \<Rightarrow>
                      if take 1 args = [''pull''] then (Some (ErrorString ''exit status 1''), w)
                      else (None, w))\<rparr>"

definition redis_twice :: "Service list" where
  "redis_twice = [svc ''r2'' ''redis:1.2'', svc ''r1'' ''redis'', svc ''r4'' ''redis:latest'']"

text \<open>Collaborators as \<open>E_ok\<close>, but every process fails; and the argument lists of the
  processes in a trace.\<close>

definition E_rmrf_fails :: "Service list \<Rightarrow> unit Env" where
  "E_rmrf_fails services =
     (E_ok services)\<lparr>exec_Run := (\<lambda>argv w. (Some (ErrorString ''exit status 1''), w))\<rparr>"

fun exec_cmds :: "Event list \<Rightarrow> string list list" where
  "exec_cmds [] = []"
| "exec_cmds (ExecEv argv # evs) = argv # exec_cmds evs"
| "exec_cmds (ev # evs) = exec_cmds evs"

section \<open>Lemmas\<close>

lemma strings_Split_not_Nil: "strings_Split s c \<noteq> []"
  by (induction s) (auto split: list.splits)

lemma strings_Contains_single: "strings_Contains s [c] = (c \<in> set s)"
  by (induction s) auto

lemma index_last: "xs \<noteq> [] \<Longrightarrow> index xs (length xs - 1) = Value (last xs)"
  by (simp add: index_def last_conv_nth)

lemma strings_SplitN_2: "strings_SplitN s c 2 \<noteq> [] \<and> hd (strings_SplitN s c 2) = takeWhile (\<lambda>x. x \<noteq> c) s"
  by (induction s) (auto simp: numeral_2_eq_2 split: list.splits)

lemma path_of_Dockerfile: "path_of ''Dockerfile'' = (False, [''Dockerfile''])"
  by (simp add: path_of_def rooted_def)

lemma follow_no_link:
  "(\<And>t m. lookup fs k \<noteq> Some (Symlink t m)) \<Longrightarrow> follow n fs k = Inr k"
  by (cases n; cases "lookup fs k"; simp split: node.splits)

lemma map_of_fold_update:
  "map_of (fold (\<lambda>(k, v) bargs. AList.update k v bargs) xs acc) = map_of acc ++ map_of (rev xs)"
proof (induction xs arbitrary: acc)
  case Nil
  then show ?case by simp
next
  case (Cons x xs)
  obtain k v where x: "x = (k, v)" by (cases x)
  show ?case
    by (simp add: x Cons.IH update_conv' map_add_upd_left fun_eq_iff map_add_def split: option.splits)
qed

lemma distinct_fold_update:
  "distinct (map fst acc) \<Longrightarrow> distinct (map fst (fold (\<lambda>(k, v) bargs. AList.update k v bargs) xs acc))"
  by (induction xs arbitrary: acc) (auto simp: distinct_update)

lemma map_of_fold_env:
  "map_of (fold (\<lambda>ba bargs. case environment ba of Some v \<Rightarrow> AList.update ba v bargs | None \<Rightarrow> bargs) dba acc) name
     = (if name \<in> set dba \<and> environment name \<noteq> None then environment name else map_of acc name)"
  by (induction dba arbitrary: acc) (auto simp: update_conv' split: option.splits)

lemma distinct_fold_env:
  "distinct (map fst acc) \<Longrightarrow>
   distinct (map fst (fold (\<lambda>ba bargs. case environment ba of Some v \<Rightarrow> AList.update ba v bargs | None \<Rightarrow> bargs) dba acc))"
  by (induction dba arbitrary: acc) (auto simp: distinct_update split: option.splits)

lemma map_of_merge_args: "map_of (merge_args sa dba env) = merged sa dba env"
  by (rule ext) (auto simp add: merge_args_def merged_def map_of_fold_env map_of_fold_update)

lemma distinct_merge_args: "distinct (map fst (merge_args sa dba env))"
  by (simp add: merge_args_def distinct_fold_env distinct_fold_update)

lemma fold_append_flags:
  "fold (\<lambda>name args. args @ f name) names args0 = args0 @ concat (map f names)"
  by (induction names arbitrary: args0) auto

lemma sort_keys:
  assumes "distinct (map fst bargs)"
  shows "sort (map fst bargs) = sorted_list_of_set (dom (map_of bargs))"
proof -
  have "dom (map_of bargs) = set (map fst bargs)"
    by (simp add: dom_map_of_conv_image_fst)
  moreover have "sorted_list_of_set (set (map fst bargs)) = sort (remdups (map fst bargs))"
    by (rule sorted_list_of_set_sort_remdups)
  ultimately show ?thesis
    using assms by (simp only: distinct_remdups_id)
qed

lemma value_of_the: "name \<in> dom (map_of bargs) \<Longrightarrow> value_of bargs name = the (map_of bargs name)"
  by (auto simp: value_of_def)

lemma build_command_shape:
  "build_command opts (merge_args sa dba env) dockerFile tag context =
     [''build''] @ (if Cache opts then [] else [''--no-cache''])
     @ concat (map (\<lambda>name. [''--build-arg'', name @ ''='' @ the (merged sa dba env name)])
                   (sorted_list_of_set (dom (merged sa dba env))))
     @ [''-f'', dockerFile, ''-t'', tag, context]"
proof -
  let ?b = "merge_args sa dba env"
  let ?m = "merged sa dba env"
  have fin: "finite (dom ?m)"
    using finite_dom_map_of [of ?b] by (simp add: map_of_merge_args)
  have "map (\<lambda>name. [''--build-arg'', name @ ''='' @ value_of ?b name]) (sorted_list_of_set (dom ?m))
      = map (\<lambda>name. [''--build-arg'', name @ ''='' @ the (?m name)]) (sorted_list_of_set (dom ?m))"
    using fin by (intro map_cong refl) (simp add: value_of_the map_of_merge_args)
  then have flags:
    "fold (\<lambda>name args. args @ [''--build-arg'', name @ ''='' @ value_of ?b name])
          (sort (map fst ?b)) args0
     = args0 @ concat (map (\<lambda>name. [''--build-arg'', name @ ''='' @ the (?m name)])
                           (sorted_list_of_set (dom ?m)))" for args0
    by (simp only: fold_append_flags sort_keys [OF distinct_merge_args] map_of_merge_args)
  show ?thesis
    unfolding build_command_def Let_def flags by simp
qed

lemma trace_send [simp]: "trace (send str w) = trace w @ [SendEv str]"
  by (simp add: send_def)

lemma disk_send [simp]: "disk (send str w) = disk w"
  by (simp add: send_def)

lemma trace_Run:
  "DefaultRunner_Run E cmd ropts w = (r, w') \<Longrightarrow> trace w' = trace w @ [RunEv cmd ropts]"
  by (auto simp: DefaultRunner_Run_def split: prod.splits)

lemma trace_CombinedOutput:
  "DefaultRunner_CombinedOutput E cmd w = (r, w') \<Longrightarrow> trace w' = trace w @ [OutputEv cmd]"
  by (auto simp: DefaultRunner_CombinedOutput_def split: prod.splits)

lemma trace_exec:
  "exec_Command_Run E argv w = (r, w') \<Longrightarrow> trace w' = trace w @ [ExecEv argv]"
  by (auto simp: exec_Command_Run_def split: prod.splits)

lemma restore_cache_sends:
  assumes "restore_cache E n dir opts service w = Some w'"
  shows "\<exists>evs. trace w' = trace w @ evs \<and> list_all is_send evs"
  using assms
  by (auto simp: restore_cache_def Let_def os_RemoveAll_def
      split: if_splits sum.splits option.splits prod.splits)

lemma write_back_trace:
  assumes "CacheDir opts \<noteq> []"
  shows "\<exists>m1 m2 m3.
      trace (write_back E opts hash tag w) =
        trace w @ RunEv (Docker [''create'', ''--name'', hash, tag]) (build_ropts opts) # m1
          @ ExecEv [''rm'', ''-rf'', filepath_Join [CacheDir opts, hash]]
          # RunEv (Docker [''cp'', hash @ '':/var/cache/build'', filepath_Join [CacheDir opts, hash]])
              (build_ropts opts) # m2
          @ RunEv (Docker [''rm'', hash]) (build_ropts opts) # m3
      \<and> list_all is_send (m1 @ m2 @ m3)"
proof -
  obtain r1 w1 where 1: "DefaultRunner_Run E (Docker [''create'', ''--name'', hash, tag]) (build_ropts opts) w = (r1, w1)"
    by (cases "DefaultRunner_Run E (Docker [''create'', ''--name'', hash, tag]) (build_ropts opts) w")
  define w2 where "w2 = (case r1 of Some err \<Rightarrow> send (''cache error: '' @ error_Error err) w1 | None \<Rightarrow> w1)"
  obtain r2 w3 where 2: "exec_Command_Run E [''rm'', ''-rf'', filepath_Join [CacheDir opts, hash]] w2 = (r2, w3)"
    by (cases "exec_Command_Run E [''rm'', ''-rf'', filepath_Join [CacheDir opts, hash]] w2")
  obtain r3 w4 where 3: "DefaultRunner_Run E (Docker [''cp'', hash @ '':/var/cache/build'', filepath_Join [CacheDir opts, hash]]) (build_ropts opts) w3 = (r3, w4)"
    by (cases "DefaultRunner_Run E (Docker [''cp'', hash @ '':/var/cache/build'', filepath_Join [CacheDir opts, hash]]) (build_ropts opts) w3")
  define w5 where "w5 = (case r3 of Some err \<Rightarrow> send ''ignoring build cache'' w4 | None \<Rightarrow> w4)"
  obtain r4 w6 where 4: "DefaultRunner_Run E (Docker [''rm'', hash]) (build_ropts opts) w5 = (r4, w6)"
    by (cases "DefaultRunner_Run E (Docker [''rm'', hash]) (build_ropts opts) w5")
  define w7 where "w7 = (case r4 of Some err \<Rightarrow> send (''cache error: '' @ error_Error err) w6 | None \<Rightarrow> w6)"
  have wb: "write_back E opts hash tag w = w7"
    using assms 1 2 3 4 by (simp add: write_back_def w2_def w5_def w7_def Let_def)
  obtain m1 where m1: "trace w2 = trace w1 @ m1" "list_all is_send m1"
    by (cases r1) (auto simp: w2_def)
  obtain m2 where m2: "trace w5 = trace w4 @ m2" "list_all is_send m2"
    by (cases r3) (auto simp: w5_def)
  obtain m3 where m3: "trace w7 = trace w6 @ m3" "list_all is_send m3"
    by (cases r4) (auto simp: w7_def)
  show ?thesis
    using trace_Run [OF 1] trace_exec [OF 2] trace_Run [OF 3] trace_Run [OF 4] m1 m2 m3
    by (intro exI [of _ m1] exI [of _ m2] exI [of _ m3]) (simp add: wb)
qed

lemma write_back_off: "CacheDir opts = [] \<Longrightarrow> write_back E opts hash tag w = w"
  by (simp add: write_back_def)

lemma no_build_in_sends: "list_all is_send evs \<Longrightarrow> filter is_build evs = []"
  by (induction evs) (auto elim: is_send.elims)

lemma write_back_no_build:
  "\<exists>evs. trace (write_back E opts hash tag w) = trace w @ evs \<and> filter is_build evs = []"
proof (cases "CacheDir opts = []")
  case True
  then show ?thesis by (simp add: write_back_off)
next
  case False
  from write_back_trace [OF False, of E hash tag w] obtain m1 m2 m3 where
    t: "trace (write_back E opts hash tag w) =
        trace w @ RunEv (Docker [''create'', ''--name'', hash, tag]) (build_ropts opts) # m1
          @ ExecEv [''rm'', ''-rf'', filepath_Join [CacheDir opts, hash]]
          # RunEv (Docker [''cp'', hash @ '':/var/cache/build'', filepath_Join [CacheDir opts, hash]])
              (build_ropts opts) # m2
          @ RunEv (Docker [''rm'', hash]) (build_ropts opts) # m3"
    and s: "list_all is_send (m1 @ m2 @ m3)"
    by blast
  from s have "filter is_build m1 = []" "filter is_build m2 = []" "filter is_build m3 = []"
    by (simp_all add: no_build_in_sends)
  with t show ?thesis by simp
qed

lemma build_service_hit:
  assumes "buildCache (hash_of E service) = Some bc"
  shows "build_service E n dir appName opts service buildCache w =
     (case DefaultRunner_Run E (Docker [''tag'', bc, Tag E service appName]) (tag_ropts opts) w of
        (Some err, w1) \<Rightarrow>
          Some (Value (Some (ErrorString (''build error: '' @ error_Error err))), buildCache, w1)
      | (None, w1) \<Rightarrow> Some (Value None, buildCache, w1))"
  using assms by (simp add: build_service_def hash_of_def)

lemma build_service_miss:
  assumes "buildCache (hash_of E service) = None"
  shows "build_service E n dir appName opts service buildCache w =
     (case restore_cache E n dir opts service w of
        None \<Rightarrow> None
      | Some w1 \<Rightarrow>
          (case buildArgs (dockerFile_of dir service) (disk w1) of
             Panic msg \<Rightarrow> Some (Panic msg, buildCache, w1)
           | Value (Inl err) \<Rightarrow> Some (Value (Some err), buildCache, w1)
           | Value (Inr dba) \<Rightarrow>
               (case DefaultRunner_Run E (Docker (build_args_of E dir appName opts service dba))
                       (build_ropts opts) w1 of
                  (Some err, w2) \<Rightarrow>
                    Some (Value (Some (ErrorString (''build error: '' @ error_Error err))), buildCache, w2)
                | (None, w2) \<Rightarrow>
                    Some (Value None, buildCache(hash_of E service \<mapsto> Tag E service appName),
                          write_back E opts (hash_of E service) (Tag E service appName) w2))))"
  using assms
  by (auto simp add: build_service_def hash_of_def Let_def build_command_shape build_args_of_def
      dockerFile_of_def context_of_def split: option.splits result.splits sum.splits prod.splits)

lemma build_service_hit_ok:
  assumes "buildCache (hash_of E service) = Some bc"
    and "build_service E n dir appName opts service buildCache w = Some (Value None, buildCache1, w1)"
  shows "buildCache1 = buildCache \<and>
         trace w1 = trace w @ [RunEv (Docker [''tag'', bc, Tag E service appName]) (tag_ropts opts)]"
  using assms(2) unfolding build_service_hit [of buildCache E service bc, OF assms(1)]
  by (auto split: prod.splits option.splits dest: trace_Run)

lemma is_build_build_args: "is_build (RunEv (Docker (build_args_of E dir appName opts service dba)) ropts)"
  by (simp add: build_args_of_def)

lemma build_service_miss_ok:
  assumes "buildCache (hash_of E service) = None"
    and "build_service E n dir appName opts service buildCache w = Some (Value None, buildCache1, w1)"
  shows "buildCache1 = buildCache(hash_of E service \<mapsto> Tag E service appName) \<and>
         (\<exists>evs. trace w1 = trace w @ evs \<and> length (filter is_build evs) = 1)"
proof -
  from assms(2) obtain wa dba wb where
    r: "restore_cache E n dir opts service w = Some wa"
    and b: "buildArgs (dockerFile_of dir service) (disk wa) = Value (Inr dba)"
    and c: "DefaultRunner_Run E (Docker (build_args_of E dir appName opts service dba)) (build_ropts opts) wa = (None, wb)"
    and m: "buildCache1 = buildCache(hash_of E service \<mapsto> Tag E service appName)"
    and w1: "w1 = write_back E opts (hash_of E service) (Tag E service appName) wb"
    unfolding build_service_miss [of buildCache E service, OF assms(1)]
    by (auto split: option.splits result.splits sum.splits prod.splits)
  from restore_cache_sends [OF r] obtain e1 where e1: "trace wa = trace w @ e1" "list_all is_send e1"
    by blast
  from write_back_no_build [of E opts "hash_of E service" "Tag E service appName" wb] obtain e2 where
    e2: "trace w1 = trace wb @ e2" "filter is_build e2 = []"
    unfolding w1 by blast
  have "trace w1 = trace w @ (e1 @ RunEv (Docker (build_args_of E dir appName opts service dba)) (build_ropts opts) # e2)"
    using trace_Run [OF c] e1 e2 by simp
  moreover have "length (filter is_build (e1 @ RunEv (Docker (build_args_of E dir appName opts service dba)) (build_ropts opts) # e2)) = 1"
    using e1(2) e2(2) by (simp add: no_build_in_sends is_build_build_args)
  ultimately show ?thesis using m by blast
qed

lemma Build_builds_append:
  assumes "Build_builds E n dir appName opts (xs @ ys) buildCache w = Some (Value None, buildCache2, w2)"
  shows "\<exists>buildCache1 w1.
           Build_builds E n dir appName opts xs buildCache w = Some (Value None, buildCache1, w1) \<and>
           Build_builds E n dir appName opts ys buildCache1 w1 = Some (Value None, buildCache2, w2)"
  using assms
proof (induction xs arbitrary: buildCache w)
  case Nil
  then show ?case by simp
next
  case (Cons x xs)
  from Cons.prems obtain bc1 wa where
    s: "build_service E n dir appName opts x buildCache w = Some (Value None, bc1, wa)"
    and rest: "Build_builds E n dir appName opts (xs @ ys) bc1 wa = Some (Value None, buildCache2, w2)"
    by (auto split: option.splits prod.splits result.splits)
  from Cons.IH [OF rest] s show ?case by auto
qed

lemma build_service_memo:
  assumes "build_service E n dir appName opts service buildCache w = Some (Value None, buildCache1, w1)"
  shows "buildCache1 = (case buildCache (hash_of E service) of
                          Some bc \<Rightarrow> buildCache
                        | None \<Rightarrow> buildCache(hash_of E service \<mapsto> Tag E service appName))"
proof (cases "buildCache (hash_of E service)")
  case None
  with build_service_miss_ok [OF None assms] show ?thesis by simp
next
  case (Some bc)
  with build_service_hit_ok [OF Some assms] show ?thesis by simp
qed

lemma Build_builds_memo:
  assumes "Build_builds E n dir appName opts xs buildCache w = Some (Value None, buildCache1, w1)"
  shows "buildCache1 h =
           (case buildCache h of
              Some bc \<Rightarrow> Some bc
            | None \<Rightarrow> map_option (\<lambda>x. Tag E x appName) (first_with E h xs))"
  using assms
proof (induction xs arbitrary: buildCache w)
  case Nil
  then show ?case by (simp add: first_with_def split: option.splits)
next
  case (Cons x xs)
  from Cons.prems obtain bc1 wa where
    s: "build_service E n dir appName opts x buildCache w = Some (Value None, bc1, wa)"
    and rest: "Build_builds E n dir appName opts xs bc1 wa = Some (Value None, buildCache1, w1)"
    by (auto split: option.splits prod.splits result.splits)
  show ?case
    unfolding Cons.IH [OF rest] build_service_memo [OF s]
    by (auto simp: first_with_def hash_of_def split: option.splits)
qed

lemma restore_cache_copy_failed:
  assumes "CacheDir opts \<noteq> []"
    and "os_Stat (rcd_of E opts service) (disk w) = Inr fi"
    and "copyDir n (rcd_of E opts service) (lcd_of dir) (snd (os_RemoveAll (lcd_of dir) (disk w))) = Some (Some err, d2)"
    and "\<not> strings_Contains (error_Error err) ''no such file or directory''"
  shows "restore_cache E n dir opts service w =
           Some \<lparr>disk = d2, ext = ext w, trace = trace w @ [SendEv (''cache error: '' @ error_Error err)]\<rparr>"
  using assms
  by (simp add: restore_cache_def rcd_of_def lcd_of_def hash_of_def os_RemoveAll_def send_def)

lemma restore_cache_off: "CacheDir opts = [] \<Longrightarrow> restore_cache E n dir opts service w = Some w"
  by (simp add: restore_cache_def)

lemma restore_cache_no_entry:
  "os_Stat (rcd_of E opts service) (disk w) = Inl err \<Longrightarrow>
   restore_cache E n dir opts service w = Some w"
  by (simp add: restore_cache_def rcd_of_def hash_of_def)

lemma Some_triple_ex:
  "(case x of Some (Value None, bc, w) \<Rightarrow> True | _ \<Rightarrow> False) \<Longrightarrow> \<exists>bc w. x = Some (Value None, bc, w)"
  by (auto split: option.splits prod.splits result.splits)

lemma tag_image_run_all:
  "tag_image E opts img tags w = run_all E opts (map (\<lambda>tag. Docker [''tag'', img, tag]) tags) w"
  by (induction tags arbitrary: w) (auto split: prod.splits option.splits)

lemma pull_image_run_all:
  "pull_image E opts img tags w =
     (case DefaultRunner_CombinedOutput E (Docker [''images'', ''-q'', img]) w of
        (Inl err, w1) \<Rightarrow> (Some err, w1)
      | (Inr output, w1) \<Rightarrow> run_all E opts (pull_cmds opts img tags output) w1)"
  by (auto simp: pull_image_def pull_cmds_def tag_image_run_all split: prod.splits sum.splits option.splits)

lemma run_all_trace:
  assumes "run_all E opts cmds w = (r, w')"
  shows "case r of
           None \<Rightarrow> trace w' = trace w @ map (\<lambda>cmd. RunEv cmd (tag_ropts opts)) cmds
         | Some e \<Rightarrow> \<exists>k<length cmds. trace w' = trace w @ map (\<lambda>cmd. RunEv cmd (tag_ropts opts)) (take (Suc k) cmds)"
  using assms
proof (induction cmds arbitrary: w)
  case Nil
  then show ?case by simp
next
  case (Cons cmd cmds)
  obtain p w1 where c: "DefaultRunner_Run E cmd (tag_ropts opts) w = (p, w1)"
    by (cases "DefaultRunner_Run E cmd (tag_ropts opts) w")
  note t = trace_Run [OF c]
  show ?case
  proof (cases p)
    case (Some err)
    with Cons.prems c t show ?thesis by auto
  next
    case None
    with Cons.prems c have rest: "run_all E opts cmds w1 = (r, w')" by simp
    from Cons.IH [OF rest] t show ?thesis
      by (cases r) (auto intro: exI [of _ "Suc k" for k])
  qed
qed

lemma index_last': "xs \<noteq> [] \<Longrightarrow> index xs (length xs - Suc 0) = Value (last xs)"
  by (simp add: index_def last_conv_nth)

lemma normalized_code:
  "(let sp = strings_Split img CHR ''/'' in
      case index sp (length sp - 1) of
        Panic msg \<Rightarrow> Panic msg
      | Value seg \<Rightarrow> Value (if \<not> strings_Contains seg '':'' then img @ '':latest'' else img))
   = Value (normalized img)"
  by (simp add: Let_def index_last' strings_Split_not_Nil normalized_def strings_Contains_single)

lemma Build_plan_value:
  "Build_plan E appName services pulls builds =
     Value (plan_pulls E appName services pulls, builds @ filter (\<lambda>service. Image service = []) services)"
proof (induction services arbitrary: pulls builds)
  case Nil
  then show ?case by (simp add: plan_pulls_def)
next
  case (Cons service services)
  show ?case
  proof (cases "Image service = []")
    case True
    then show ?thesis by (simp add: Cons.IH plan_pulls_def)
  next
    case False
    then show ?thesis
      by (simp add: Cons.IH plan_pulls_def Let_def index_last' strings_Split_not_Nil normalized_def
          strings_Contains_single)
  qed
qed

lemma plan_pulls_keys:
  "fst ` set (plan_pulls E appName services pulls) =
     fst ` set pulls \<union> normalized ` Image ` {service \<in> set services. Image service \<noteq> []}"
proof (induction services arbitrary: pulls)
  case Nil
  then show ?case by (simp add: plan_pulls_def)
next
  case (Cons service services)
  have step: "plan_pulls E appName (service # services) pulls =
      plan_pulls E appName services
        (if Image service \<noteq> [] then
           AList.update (normalized (Image service))
             (tags_of pulls (normalized (Image service)) @ [Tag E service appName]) pulls
         else pulls)"
    by (simp add: plan_pulls_def)
  show ?case
    unfolding step Cons.IH by (auto simp: dom_update)
qed

lemma image_free_send: "is_send ev \<Longrightarrow> image_free ev"
  by (cases ev) (simp_all add: image_free_def)

lemma image_free_sends: "list_all is_send evs \<Longrightarrow> list_all image_free evs"
  by (induction evs) (auto simp: image_free_send)

lemma image_free_not_pull: "a \<noteq> ''pull'' \<Longrightarrow> image_free (RunEv (Docker (a # rest)) ropts)"
proof (cases rest)
  case Nil
  then show ?thesis by (simp add: image_free_def)
next
  case (Cons b rest')
  assume "a \<noteq> ''pull''"
  then show ?thesis using Cons by (cases rest') (simp_all add: image_free_def)
qed

lemma image_free_exec: "image_free (ExecEv argv)"
  by (simp add: image_free_def)

lemma write_back_image_free:
  "\<exists>evs. trace (write_back E opts hash tag w) = trace w @ evs \<and> list_all image_free evs"
proof (cases "CacheDir opts = []")
  case True
  then show ?thesis by (simp add: write_back_off)
next
  case False
  from write_back_trace [OF False, of E hash tag w] obtain m1 m2 m3 where
    t: "trace (write_back E opts hash tag w) =
        trace w @ RunEv (Docker [''create'', ''--name'', hash, tag]) (build_ropts opts) # m1
          @ ExecEv [''rm'', ''-rf'', filepath_Join [CacheDir opts, hash]]
          # RunEv (Docker [''cp'', hash @ '':/var/cache/build'', filepath_Join [CacheDir opts, hash]])
              (build_ropts opts) # m2
          @ RunEv (Docker [''rm'', hash]) (build_ropts opts) # m3"
    and s: "list_all is_send (m1 @ m2 @ m3)"
    by blast
  from s have "list_all image_free m1" "list_all image_free m2" "list_all image_free m3"
    by (simp_all add: image_free_sends)
  with t show ?thesis by (simp add: image_free_not_pull image_free_exec)
qed

lemma build_service_image_free:
  assumes "build_service E n dir appName opts service buildCache w = Some (r, buildCache1, w1)"
  shows "\<exists>evs. trace w1 = trace w @ evs \<and> list_all image_free evs"
proof (cases "buildCache (hash_of E service)")
  case (Some bc)
  from assms have "trace w1 = trace w @ [RunEv (Docker [''tag'', bc, Tag E service appName]) (tag_ropts opts)]"
    unfolding build_service_hit [of buildCache E service bc, OF Some]
    by (auto split: prod.splits option.splits dest: trace_Run)
  then show ?thesis by (simp add: image_free_not_pull)
next
  case None
  from assms obtain wa where r: "restore_cache E n dir opts service w = Some wa"
    unfolding build_service_miss [of buildCache E service, OF None]
    by (auto split: option.splits)
  from restore_cache_sends [OF r] obtain e1 where e1: "trace wa = trace w @ e1" "list_all image_free e1"
    by (auto simp: image_free_sends)
  show ?thesis
  proof (cases "buildArgs (dockerFile_of dir service) (disk wa)")
    case (Panic msg)
    with assms r have "w1 = wa"
      unfolding build_service_miss [of buildCache E service, OF None] by simp
    with e1 show ?thesis by blast
  next
    case (Value v)
    show ?thesis
    proof (cases v)
      case (Inl err)
      with assms r Value have "w1 = wa"
        unfolding build_service_miss [of buildCache E service, OF None] by simp
      with e1 show ?thesis by blast
    next
      case (Inr dba)
      let ?cmd = "Docker (build_args_of E dir appName opts service dba)"
      obtain p wb where c: "DefaultRunner_Run E ?cmd (build_ropts opts) wa = (p, wb)"
        by (cases "DefaultRunner_Run E ?cmd (build_ropts opts) wa")
      have b: "image_free (RunEv ?cmd (build_ropts opts))"
        by (simp add: build_args_of_def image_free_not_pull)
      note t = trace_Run [OF c]
      show ?thesis
      proof (cases p)
        case (Some err)
        with assms r Value Inr c have "w1 = wb"
          unfolding build_service_miss [of buildCache E service, OF None] by simp
        with t e1 b show ?thesis by simp
      next
        case None': None
        with assms r Value Inr c have w1: "w1 = write_back E opts (hash_of E service) (Tag E service appName) wb"
          unfolding build_service_miss [of buildCache E service, OF None] by simp
        from write_back_image_free [of E opts "hash_of E service" "Tag E service appName" wb]
        obtain e2 where "trace w1 = trace wb @ e2" "list_all image_free e2"
          unfolding w1 by blast
        with t e1 b show ?thesis by simp
      qed
    qed
  qed
qed

lemma Build_builds_image_free:
  assumes "Build_builds E n dir appName opts builds buildCache w = Some (r, buildCache1, w1)"
  shows "\<exists>evs. trace w1 = trace w @ evs \<and> list_all image_free evs"
  using assms
proof (induction builds arbitrary: buildCache w)
  case Nil
  then show ?case by simp
next
  case (Cons service builds)
  from Cons.prems obtain ra bca wa where
    s: "build_service E n dir appName opts service buildCache w = Some (ra, bca, wa)"
    by (auto split: option.splits)
  from build_service_image_free [OF s] obtain e1 where
    e1: "trace wa = trace w @ e1" "list_all image_free e1"
    by blast
  show ?case
  proof (cases "ra = Value None")
    case True
    with Cons.prems s have "Build_builds E n dir appName opts builds bca wa = Some (r, buildCache1, w1)"
      by simp
    from Cons.IH [OF this] e1 show ?thesis by auto
  next
    case False
    with Cons.prems s have "w1 = wa"
      by (auto split: result.splits option.splits)
    with e1 show ?thesis by blast
  qed
qed

lemma run_all_images:
  assumes "run_all E opts cmds w = (r, w')"
    and "list_all (\<lambda>cmd. images_among S (RunEv cmd (tag_ropts opts))) cmds"
  shows "\<exists>evs. trace w' = trace w @ evs \<and> list_all (images_among S) evs"
proof -
  have all: "list_all (images_among S) (map (\<lambda>cmd. RunEv cmd (tag_ropts opts)) (take k cmds))" for k
    using assms(2) by (auto simp: list_all_iff dest: in_set_takeD)
  from run_all_trace [OF assms(1)] show ?thesis
    using all [of "length cmds"] all by (cases r) auto
qed

lemma pull_image_images:
  assumes "pull_image E opts img tags w = (r, w')" and "img \<in> S"
  shows "\<exists>evs. trace w' = trace w @ evs \<and> list_all (images_among S) evs"
proof -
  obtain q w1 where c: "DefaultRunner_CombinedOutput E (Docker [''images'', ''-q'', img]) w = (q, w1)"
    by (cases "DefaultRunner_CombinedOutput E (Docker [''images'', ''-q'', img]) w")
  note t = trace_CombinedOutput [OF c]
  have q: "images_among S (OutputEv (Docker [''images'', ''-q'', img]))"
    using assms(2) by (simp add: images_among_def)
  show ?thesis
  proof (cases q)
    case (Inl err)
    with assms c have "w' = w1" by (simp add: pull_image_run_all)
    with t q show ?thesis by simp
  next
    case (Inr outp)
    with assms c have ra: "run_all E opts (pull_cmds opts img tags outp) w1 = (r, w')"
      by (simp add: pull_image_run_all)
    have "list_all (\<lambda>cmd. images_among S (RunEv cmd (tag_ropts opts))) (pull_cmds opts img tags outp)"
      using assms(2) by (auto simp: pull_cmds_def images_among_def list_all_iff)
    from run_all_images [OF ra this] t q show ?thesis by auto
  qed
qed

lemma Build_pulls_images:
  assumes "Build_pulls E opts pulls w = (r, w')" and "fst ` set pulls \<subseteq> S"
  shows "\<exists>evs. trace w' = trace w @ evs \<and> list_all (images_among S) evs"
  using assms
proof (induction pulls arbitrary: w)
  case Nil
  then show ?case by simp
next
  case (Cons p pulls)
  obtain img tags where p: "p = (img, tags)" by (cases p)
  obtain ra wa where s: "pull_image E opts img tags w = (ra, wa)"
    by (cases "pull_image E opts img tags w")
  from Cons.prems(2) p have "img \<in> S" by simp
  from pull_image_images [OF s this] obtain e1 where
    e1: "trace wa = trace w @ e1" "list_all (images_among S) e1"
    by blast
  show ?case
  proof (cases ra)
    case (Some err)
    with Cons.prems(1) p s have "w' = wa" by simp
    with e1 show ?thesis by blast
  next
    case None
    with Cons.prems(1) p s have "Build_pulls E opts pulls wa = (r, w')" by simp
    from Cons.IH [OF this] Cons.prems(2) e1 show ?thesis by auto
  qed
qed

lemma images_among_free: "image_free ev \<Longrightarrow> images_among S ev"
  by (simp add: image_free_def images_among_def)

lemma SplitN_2_nth:
  "strings_SplitN s c 2 \<noteq> []" "strings_SplitN s c 2 ! 0 = takeWhile (\<lambda>x. x \<noteq> c) s"
  using strings_SplitN_2 [of s c] by (auto simp: hd_conv_nth)

lemma index_SplitN_2:
  "index (strings_SplitN s c 2) 0 = Value (takeWhile (\<lambda>x. x \<noteq> c) s)"
  using strings_SplitN_2 [of s c] by (cases "strings_SplitN s c 2") (auto simp: index_def)

lemma buildArgs_scan_step:
  "buildArgs_scan args (l # ls) =
     (if bare_arg_line l then Panic ''runtime error: index out of range''
      else if arg_line l then buildArgs_scan (args @ [arg_name l]) ls
      else buildArgs_scan args ls)"
proof (cases "strings_Fields l")
  case Nil
  then show ?thesis by (simp add: bare_arg_line_def arg_line_def)
next
  case (Cons p0 rest)
  show ?thesis
  proof (cases rest)
    case Nil
    with Cons show ?thesis
      by (simp add: bare_arg_line_def arg_line_def index_def)
  next
    case (Cons p1 rest')
    with \<open>strings_Fields l = p0 # rest\<close> show ?thesis
      by (simp add: bare_arg_line_def arg_line_def arg_name_def index_def SplitN_2_nth)
  qed
qed

lemma buildArgs_scan_ok:
  assumes "list_all (\<lambda>l. \<not> bare_arg_line l) ls"
  shows "buildArgs_scan args ls = Value (args @ map arg_name (filter arg_line ls))"
  using assms
proof (induction ls arbitrary: args)
  case Nil
  then show ?case by simp
next
  case (Cons l ls)
  then show ?case by (simp add: buildArgs_scan_step del: buildArgs_scan.simps)
qed

lemma buildArgs_scan_panic:
  assumes "list_ex bare_arg_line ls"
  shows "buildArgs_scan args ls = Panic ''runtime error: index out of range''"
  using assms
proof (induction ls arbitrary: args)
  case Nil
  then show ?case by simp
next
  case (Cons l ls)
  then show ?case by (auto simp add: buildArgs_scan_step simp del: buildArgs_scan.simps)
qed

lemma buildArgs_read_error:
  "ioutil_ReadFile dockerfile fs = Inl err \<Longrightarrow> buildArgs dockerfile fs = Value (Inl err)"
  by (simp add: buildArgs_def)

lemma buildArgs_readable:
  "ioutil_ReadFile dockerfile fs = Inr data \<Longrightarrow>
   buildArgs dockerfile fs =
     (if list_ex bare_arg_line (ScanLines data) then Panic ''runtime error: index out of range''
      else Value (Inr (map arg_name (filter arg_line (ScanLines data)))))"
  by (auto simp: buildArgs_def buildArgs_scan_panic buildArgs_scan_ok list_all_iff list_ex_iff)

lemma lookup_store: "lookup (store k nd fs) q = (if q = k then Some nd else lookup fs q)"
  by (simp add: lookup_def store_def update_conv')

lemma clock_store [simp]: "clock (store k nd fs) = clock fs"
  by (simp add: store_def)

lemma store_store: "store k nd (store k nd' fs) = store k nd fs"
  by (simp add: store_def)

lemma follow_eq:
  "follow n fs k = (if is_link (lookup fs k) then
                      (case n of 0 \<Rightarrow> Inl ELOOP
                       | Suc m \<Rightarrow> follow m fs (link_target k (case the (lookup fs k) of Symlink t m \<Rightarrow> t | _ \<Rightarrow> [])))
                    else Inr k)"
  by (cases n; cases "lookup fs k" rule: is_link.cases) auto

lemma follow_result: "follow n fs k = Inr k' \<Longrightarrow> \<not> is_link (lookup fs k')"
proof (induction n arbitrary: k)
  case 0
  then show ?case by (cases "lookup fs k" rule: is_link.cases) auto
next
  case (Suc n)
  then show ?case by (cases "lookup fs k" rule: is_link.cases) auto
qed

lemma follow_store:
  assumes "\<not> is_link (lookup fs k)" and "\<not> is_link (Some nd)"
  shows "follow n (store k nd fs) q = follow n fs q"
proof (induction n arbitrary: q)
  case 0
  show ?case
    using assms by (cases "q = k"; cases "lookup fs q" rule: is_link.cases) (auto simp: lookup_store split: node.splits)
next
  case (Suc n)
  show ?case
    using assms Suc.IH
    by (cases "q = k"; cases "lookup fs q" rule: is_link.cases) (auto simp: lookup_store split: node.splits)
qed

lemma os_Open_Inr:
  "os_Open name fs = Inr inp \<Longrightarrow> resolve fs name = Inr inp \<and> lookup fs inp \<noteq> None"
  by (auto simp: os_Open_def resolve_def split: sum.splits option.splits)

lemma os_Create_Inr:
  assumes "os_Create name fs = (Inr out, fs1)"
  shows "resolve fs name = Inr out \<and>
         (\<exists>p a. fs1 = store out (File [] p a (clock fs)) fs \<and>
                (\<forall>c0 p0 a0 m0. lookup fs out = Some (File c0 p0 a0 m0) \<longrightarrow> p = p0 \<and> a = a0))"
  using assms
  by (auto simp: os_Create_def resolve_def split: sum.splits option.splits node.splits)

lemma io_Copy_None:
  assumes "io_Copy out inp fs = (None, fs2)"
  shows "\<exists>c p a m p' a' c' m'. lookup fs inp = Some (File c p a m) \<and> lookup fs out = Some (File c' p' a' m') \<and>
           fs2 = store out (File c p' a' (clock fs)) fs"
  using assms
  by (auto simp: io_Copy_def split: option.splits node.splits)

lemma os_Chmod_None:
  assumes "os_Chmod name mode fs = (None, fs3)" and "resolve fs name = Inr out"
    and "lookup fs out = Some (File c p a m)"
  shows "fs3 = store out (File c (mode AND ModePerm) a m) fs"
  using assms by (auto simp: os_Chmod_def resolve_def)

lemma os_Chtimes_None:
  assumes "os_Chtimes name atime mtime fs = (None, fs4)" and "resolve fs name = Inr out"
    and "lookup fs out = Some (File c p a m)"
  shows "fs4 = store out (File c p atime mtime) fs"
  using assms by (auto simp: os_Chtimes_def resolve_def)

lemma resolve_store:
  "\<not> is_link (lookup fs k) \<Longrightarrow> \<not> is_link (Some nd) \<Longrightarrow> resolve (store k nd fs) name = resolve fs name"
  by (simp add: resolve_def follow_store)

lemma stat_node_resolve:
  "stat_node fs (path_of name) =
     (case resolve fs name of Inl en \<Rightarrow> Inl en
      | Inr k \<Rightarrow> (case lookup fs k of None \<Rightarrow> Inl ENOENT | Some nd \<Rightarrow> Inr nd))"
  by (simp add: stat_node_def resolve_def)

lemma copyFile_None:
  assumes "copyFile src dst fs = (None, fs')"
  shows "\<exists>inp out c p a m.
           resolve fs src = Inr inp \<and> resolve fs dst = Inr out \<and>
           lookup fs inp = Some (File c p a m) \<and>
           fs' = store out (if inp = out then File [] (p AND ModePerm) (clock fs) (clock fs)
                            else File c (p AND ModePerm) m m) fs"
proof -
  from assms obtain inp where op: "os_Open src fs = Inr inp"
    by (auto simp: copyFile_def split: sum.splits)
  from assms op obtain out fs1 where cr: "os_Create dst fs = (Inr out, fs1)"
    by (auto simp: copyFile_def split: sum.splits prod.splits)
  from assms op cr obtain fs2 where cp: "io_Copy out inp fs1 = (None, fs2)"
    by (auto simp: copyFile_def split: sum.splits prod.splits option.splits)
  from assms op cr cp obtain st where st: "os_Stat src fs2 = Inr st"
    by (auto simp: copyFile_def File_Sync_def split: sum.splits prod.splits option.splits)
  from assms op cr cp st obtain fs3 where ch: "os_Chmod dst (Mode st) fs2 = (None, fs3)"
    by (auto simp: copyFile_def File_Sync_def split: sum.splits prod.splits option.splits)
  from assms op cr cp st ch have ct: "os_Chtimes dst (ModTime st) (ModTime st) fs3 = (None, fs')"
    by (auto simp: copyFile_def File_Sync_def split: sum.splits prod.splits option.splits)
  from os_Open_Inr [OF op] have rs: "resolve fs src = Inr inp" by simp
  from os_Create_Inr [OF cr] obtain p0 a0 where
    rd: "resolve fs dst = Inr out" and fs1: "fs1 = store out (File [] p0 a0 (clock fs)) fs"
    and keep: "\<And>c0 p1 a1 m0. lookup fs out = Some (File c0 p1 a1 m0) \<Longrightarrow> p0 = p1 \<and> a0 = a1"
    by blast
  have nl: "\<not> is_link (lookup fs out)"
    using rd by (auto simp: resolve_def dest: follow_result)
  from io_Copy_None [OF cp] obtain c p a m p' a' where
    li: "lookup fs1 inp = Some (File c p a m)"
    and fs2: "fs2 = store out (File c p' a' (clock fs1)) fs1"
    by blast
  have fs2': "fs2 = store out (File c p' a' (clock fs)) fs"
    by (simp add: fs2 fs1 store_store)
  have r2: "resolve fs2 name = resolve fs name" for name
    by (simp add: fs2' resolve_store nl)
  have l2: "lookup fs2 out = Some (File c p' a' (clock fs))"
    by (simp add: fs2' lookup_store)
  have "fs3 = store out (File c (Mode st AND ModePerm) a' (clock fs)) fs2"
    using os_Chmod_None [OF ch _ l2] rd by (simp add: r2)
  then have fs3: "fs3 = store out (File c (Mode st AND ModePerm) a' (clock fs)) fs"
    by (simp add: fs2' store_store)
  have r3: "resolve fs3 name = resolve fs name" for name
    by (simp add: fs3 resolve_store nl)
  have l3: "lookup fs3 out = Some (File c (Mode st AND ModePerm) a' (clock fs))"
    by (simp add: fs3 lookup_store)
  have "fs' = store out (File c (Mode st AND ModePerm) (ModTime st) (ModTime st)) fs3"
    using os_Chtimes_None [OF ct _ l3] rd by (simp add: r3)
  then have fs4: "fs' = store out (File c (Mode st AND ModePerm) (ModTime st) (ModTime st)) fs"
    by (simp add: fs3 store_store)
  show ?thesis
  proof (cases "inp = out")
    case True
    with li have c: "c = []" "p = p0" "m = clock fs"
      by (simp_all add: fs1 lookup_store)
    from io_Copy_None [OF cp] True have p': "p' = p0"
      using fs2 l2 by (auto simp: fs1 lookup_store store_store)
    from os_Open_Inr [OF op] nl True obtain c0 p1 a1 m0 where
      orig: "lookup fs inp = Some (File c0 p1 a1 m0)"
      using cr rd [unfolded resolve_def] by (cases "lookup fs inp" rule: is_link.cases)
        (auto simp: os_Create_def split: node.splits)
    with keep True have "p0 = p1" by simp
    have "lookup fs2 inp = Some (File [] p' a' (clock fs))"
      using l2 True c by simp
    with st rs have "Mode st = p' AND ModePerm" "ModTime st = clock fs"
      by (auto simp: os_Stat_def stat_node_resolve r2)
    with rs rd orig True fs4 c p' \<open>p0 = p1\<close> show ?thesis
      by (auto simp: and.assoc)
  next
    case False
    with li have orig: "lookup fs inp = Some (File c p a m)"
      by (simp add: fs1 lookup_store)
    then have "lookup fs2 inp = Some (File c p a m)"
      using False by (simp add: fs2' lookup_store)
    with st rs have "Mode st = p AND ModePerm" "ModTime st = m"
      by (auto simp: os_Stat_def stat_node_resolve r2)
    with rs rd orig False fs4 show ?thesis
      by (auto simp: and.assoc)
  qed
qed

lemma strings_Split_append:
  "strings_Split (a @ c # b) c = strings_Split a c @ strings_Split b c"
  by (induction a) (auto simp: strings_Split_not_Nil split: list.splits)

lemma strings_Split_no_sep: "c \<notin> set s \<Longrightarrow> strings_Split s c = [s]"
  by (induction s) auto

lemma strings_Split_elems: "e \<in> set (strings_Split s c) \<Longrightarrow> c \<notin> set e"
  by (induction s arbitrary: e) (auto split: if_splits list.splits)

lemma strings_Split_Join:
  "es \<noteq> [] \<Longrightarrow> list_all (\<lambda>e. c \<notin> set e) es \<Longrightarrow> strings_Split (strings_Join es [c]) c = es"
proof (induction es "[c]" rule: strings_Join.induct)
  case 1
  then show ?case by simp
next
  case (2 e)
  then show ?case by (simp add: strings_Split_no_sep)
next
  case (3 e f es)
  then show ?case by (simp add: strings_Split_append strings_Split_no_sep)
qed

lemma clean_elems_append:
  "clean_elems r out (xs @ ys) = clean_elems r (clean_elems r out xs) ys"
  by (induction xs arbitrary: out) auto

lemma dropWhile_dotdot_snoc:
  "''..'' \<notin> set (dropWhile (\<lambda>e. e = ''..'') (out @ [e])) \<Longrightarrow> e = ''..'' \<Longrightarrow> list_all (\<lambda>e. e = ''..'') out"
  by (induction out) (auto split: if_splits)

lemma normal_fix:
  "normal (r, out @ es) \<Longrightarrow> clean_elems r out es = out @ es"
proof (induction es arbitrary: out)
  case Nil
  then show ?case by simp
next
  case (Cons e es)
  from Cons.prems have n': "normal (r, (out @ [e]) @ es)" by simp
  from Cons.prems have pe: "proper e" by (simp add: normal_def)
  show ?case
  proof (cases "e = ''..''")
    case False
    with pe Cons.IH [OF n'] show ?thesis by (simp add: proper_def)
  next
    case True
    from Cons.prems True have nr: "\<not> r" by (auto simp: normal_def)
    have "''..'' \<notin> set (dropWhile (\<lambda>e. e = ''..'') (out @ [e]))"
    proof
      assume a: "''..'' \<in> set (dropWhile (\<lambda>e. e = ''..'') (out @ [e]))"
      have "set (dropWhile (\<lambda>e. e = ''..'') (out @ [e])) \<subseteq> set (dropWhile (\<lambda>e. e = ''..'') (out @ e # es))"
        by (induction out) auto
      with a Cons.prems nr show False by (auto simp: normal_def)
    qed
    from dropWhile_dotdot_snoc [OF this True] have "out = [] \<or> last out = ''..''"
      by (cases out rule: rev_cases) auto
    with True nr Cons.IH [OF n'] show ?thesis by auto
  qed
qed

lemma normal_clean_elems:
  assumes "normal (r, out)" and "list_all (\<lambda>e. CHR ''/'' \<notin> set e) xs"
  shows "normal (r, clean_elems r out xs)"
  using assms
proof (induction xs arbitrary: out)
  case Nil
  then show ?case by simp
next
  case (Cons e xs)
  from Cons.prems(2) have xs: "list_all (\<lambda>e. CHR ''/'' \<notin> set e) xs" and e: "CHR ''/'' \<notin> set e"
    by simp_all
  have alldots: "dropWhile (\<lambda>e. e = ''..'') ys = []" if "\<forall>x\<in>set ys. x = ''..''" for ys :: "string list"
    using that by (simp add: dropWhile_eq_Nil_conv)
  have butlast: "normal (r, butlast out)"
    using Cons.prems(1)
    by (cases out rule: rev_cases)
      (auto simp: normal_def dropWhile_append alldots split: if_splits)
  have dots: "\<not> r \<Longrightarrow> \<not> (out \<noteq> [] \<and> last out \<noteq> ''..'') \<Longrightarrow> normal (r, out @ [''..''])"
    using Cons.prems(1)
    by (cases out rule: rev_cases)
      (auto simp: normal_def proper_def dropWhile_append split: if_splits)
  have snoc: "e \<noteq> [] \<Longrightarrow> e \<noteq> ''.'' \<Longrightarrow> e \<noteq> ''..'' \<Longrightarrow> normal (r, out @ [e])"
    using Cons.prems(1) e
    by (auto simp: normal_def proper_def dropWhile_append split: if_splits)
  show ?case
  proof (cases "e = [] \<or> e = ''.''")
    case True
    with Cons.IH [OF Cons.prems(1) xs] show ?thesis by auto
  next
    case plain: False
    show ?thesis
    proof (cases "e = ''..''")
      case False
      with plain Cons.IH [OF snoc xs] show ?thesis by simp
    next
      case True
      show ?thesis
      proof (cases "out \<noteq> [] \<and> last out \<noteq> ''..''")
        case True
        with \<open>e = ''..''\<close> Cons.IH [OF butlast xs] show ?thesis by simp
      next
        case False
        show ?thesis
        proof (cases r)
          case True
          with False \<open>e = ''..''\<close> Cons.IH [OF Cons.prems(1) xs] show ?thesis by auto
        next
          case nr: False
          from dots [OF nr False] have "normal (r, out @ [''..''])" .
          from Cons.IH [OF this xs] False nr \<open>e = ''..''\<close> show ?thesis by auto
        qed
      qed
    qed
  qed
qed

lemma normal_path_of: "normal (path_of s)"
  unfolding path_of_def
  by (rule normal_clean_elems) (auto simp: normal_def list_all_iff dest: strings_Split_elems)

lemma strings_Join_hd:
  "es \<noteq> [] \<Longrightarrow> hd es \<noteq> [] \<Longrightarrow> strings_Join es sep \<noteq> [] \<and> hd (strings_Join es sep) = hd (hd es)"
  by (induction es sep rule: strings_Join.induct) auto

lemma path_of_path_string:
  assumes "normal k"
  shows "path_of (path_string k) = k"
proof -
  obtain r es where k: "k = (r, es)" by (cases k)
  show ?thesis
  proof (cases "es = []")
    case True
    then show ?thesis by (cases r) (simp_all add: k path_string_def path_of_def rooted_def)
  next
    case False
    from assms have pr: "list_all proper es" by (simp add: normal_def k)
    then have ns: "list_all (\<lambda>e. CHR ''/'' \<notin> set e) es"
      by (auto simp: list_all_iff proper_def)
    from pr False have hd: "hd es \<noteq> []" "CHR ''/'' \<notin> set (hd es)"
      by (cases es; simp add: proper_def)+
    have fixed: "clean_elems r [] es = es"
      using normal_fix [of r "[]" es] assms by (simp add: k)
    show ?thesis
    proof (cases r)
      case True
      have "path_string k = CHR ''/'' # strings_Join es ''/''"
        using False True by (simp add: k path_string_def)
      moreover have "strings_Split (CHR ''/'' # strings_Join es ''/'') CHR ''/'' = [] # es"
        using strings_Split_Join [OF False ns] by simp
      ultimately show ?thesis
        using True fixed by (simp add: path_of_def rooted_def k)
    next
      case r: False
      have ps: "path_string (False, es) = strings_Join es ''/''"
        using False by (simp add: path_string_def)
      have "hd (hd es) \<noteq> CHR ''/''"
        using hd by (cases "hd es") auto
      then have "\<not> rooted (strings_Join es ''/'')"
        using strings_Join_hd [OF False hd(1), of "''/''"]
        by (cases "strings_Join es ''/''") (auto simp: rooted_def)
      then show ?thesis
        using r fixed strings_Split_Join [OF False ns] by (simp add: path_of_def ps k)
    qed
  qed
qed

lemma path_of_Clean [simp]: "path_of (filepath_Clean s) = path_of s"
  by (simp add: filepath_Clean_def path_of_path_string normal_path_of)

lemma filepath_Clean_idem [simp]: "filepath_Clean (filepath_Clean s) = filepath_Clean s"
  by (simp add: filepath_Clean_def path_of_path_string normal_path_of)

lemma path_string_not_Nil: "normal k \<Longrightarrow> path_string k \<noteq> []"
proof -
  assume n: "normal k"
  obtain r es where k: "k = (r, es)" by (cases k)
  show ?thesis
  proof (cases es)
    case Nil
    then show ?thesis by (simp add: k path_string_def)
  next
    case (Cons e es')
    with n have "hd es \<noteq> []" by (simp add: normal_def k proper_def)
    with Cons strings_Join_hd [of es "''/''"] show ?thesis
      by (simp add: k path_string_def)
  qed
qed

lemma rooted_path_string: "normal k \<Longrightarrow> rooted (path_string k) = fst k"
  using path_of_path_string [of k] by (cases k) (auto simp: path_of_def)

lemma normal_child: "normal k \<Longrightarrow> valid_name n \<Longrightarrow> normal (child k n)"
  by (cases k) (auto simp: normal_def child_def valid_name_def proper_def dropWhile_append split: if_splits)

lemma path_of_Join:
  assumes "normal k" and "valid_name n"
  shows "path_of (filepath_Join [path_string k, n]) = child k n"
proof -
  let ?c = "path_string k"
  from assms(1) have c: "?c \<noteq> []" by (rule path_string_not_Nil)
  from assms(2) have n: "n \<noteq> []" "n \<noteq> ''.''" "n \<noteq> ''..''" "CHR ''/'' \<notin> set n"
    by (simp_all add: valid_name_def)
  have j: "filepath_Join [?c, n] = filepath_Clean (?c @ CHR ''/'' # n)"
    using c by (simp add: filepath_Join_def split: list.splits)
  have r: "rooted (?c @ CHR ''/'' # n) = fst k"
    using c rooted_path_string [OF assms(1)] by (cases ?c) (auto simp: rooted_def)
  have "snd (path_of ?c) = snd k"
    using path_of_path_string [OF assms(1)] by simp
  then have e: "clean_elems (fst k) [] (strings_Split ?c CHR ''/'') = snd k"
    using rooted_path_string [OF assms(1)] by (simp add: path_of_def)
  have "path_of (?c @ CHR ''/'' # n) = child k n"
    using n e by (simp add: path_of_def r strings_Split_append strings_Split_no_sep
        clean_elems_append child_def)
  then show ?thesis by (simp add: j)
qed

subsection \<open>Paths below paths, and well-formed file systems\<close>

lemma under_prefix: "under k q = (fst q = fst k \<and> prefix (snd k) (snd q))"
proof -
  have "take (length xs) ys = xs \<longleftrightarrow> prefix xs ys" for xs ys :: "string list"
    by (metis append_eq_conv_conj prefix_def)
  then show ?thesis by (simp add: under_def)
qed

lemma fst_sub [simp]: "fst (sub k rel) = fst k"
  by (simp add: sub_def)

lemma snd_sub [simp]: "snd (sub k rel) = snd k @ rel"
  by (simp add: sub_def)

lemma under_sub [simp]: "under k (sub k rel)"
  by (simp add: under_prefix sub_def)

lemma under_refl [simp]: "under k k"
  by (simp add: under_prefix)

lemma under_subE: "under k q \<Longrightarrow> \<exists>rel. q = sub k rel"
  by (cases q) (auto simp: under_prefix sub_def prefix_def)

lemma sub_Nil [simp]: "sub k [] = k"
  by (simp add: sub_def)

lemma sub_child: "sub (child k n) rel = sub k (n # rel)"
  by (simp add: sub_def child_def)

lemma child_sub: "child k n = sub k [n]"
  by (simp add: sub_def child_def)

lemma sub_sub: "sub (sub k a) b = sub k (a @ b)"
  by (simp add: sub_def)

lemma parent_sub_snoc [simp]: "parent (sub k (rel @ [x])) = sub k rel"
  by (simp add: parent_def sub_def butlast_append)

lemma parent_child [simp]: "parent (child k n) = k"
  by (simp add: parent_def child_def)

lemma sub_inject [simp]: "sub k a = sub k b \<longleftrightarrow> a = b"
  by (auto simp: sub_def)

lemma under_trans: "under a b \<Longrightarrow> under b c \<Longrightarrow> under a c"
  by (auto simp: under_prefix)

lemma under_antisym: "under a b \<Longrightarrow> under b a \<Longrightarrow> a = b"
  by (cases a; cases b) (auto simp: under_prefix)

lemma under_child: "under (child k n) q \<Longrightarrow> under k q"
  by (auto simp: under_prefix child_def dest: append_prefixD)

lemma under_children: "under (child k a) q \<Longrightarrow> under (child k b) q \<Longrightarrow> a = b"
  by (auto simp: under_prefix child_def prefix_def)

lemma under_same: "under a q \<Longrightarrow> under b q \<Longrightarrow> under a b \<or> under b a"
  by (auto simp: under_prefix dest: prefix_same_cases)

lemma under_child_cases: "under q (child k n) \<Longrightarrow> q = child k n \<or> under q k"
  by (cases q) (auto simp: under_prefix child_def)

lemma disjoint_children: "disjoint S D \<Longrightarrow> disjoint (child S a) (child D b)"
  by (cases S; cases D) (auto simp: disjoint_def under_prefix child_def dest: append_prefixD)

lemma disjoint_under: "disjoint S D \<Longrightarrow> under S q \<Longrightarrow> \<not> under D q"
  by (auto simp: disjoint_def dest: under_same)

lemma wf_lookup:
  assumes "wf_fs fs"
  shows "lookup fs k = Some nd \<longleftrightarrow> (k, nd) \<in> set (nodes fs)"
  using assms by (simp add: wf_fs_def lookup_def)

lemma wf_good: "wf_fs fs \<Longrightarrow> lookup fs k = Some nd \<Longrightarrow> good fs k"
  by (auto simp: wf_lookup) (auto simp: wf_fs_def list_all_iff)

lemma wf_fsI:
  assumes "distinct (map fst (nodes fs))" and "\<And>k nd. lookup fs k = Some nd \<Longrightarrow> good fs k"
  shows "wf_fs fs"
  using assms by (auto simp: wf_fs_def list_all_iff lookup_def)

lemma dir_at_lookup: "dir_at fs k \<Longrightarrow> \<exists>p m. lookup fs k = Some (Dir p m)"
  by (auto simp: dir_at_def split: option.splits node.splits)

lemma wf_ancestor:
  assumes "wf_fs fs" and "lookup fs (sub k rel) \<noteq> None" and "rel \<noteq> []"
  shows "dir_at fs k"
  using assms(2,3)
proof (induction rel rule: rev_induct)
  case Nil
  then show ?case by simp
next
  case (snoc x rel)
  from snoc.prems obtain nd where "lookup fs (sub k (rel @ [x])) = Some nd" by auto
  from wf_good [OF assms(1) this] have d: "dir_at fs (sub k rel)"
    by (simp add: good_def)
  show ?case
  proof (cases "rel = []")
    case True
    with d show ?thesis by simp
  next
    case False
    from d have "lookup fs (sub k rel) \<noteq> None" by (auto dest: dir_at_lookup)
    from snoc.IH [OF this False] show ?thesis .
  qed
qed

lemma wf_nothing_under:
  assumes "wf_fs fs" and "lookup fs k = None" and "under k q"
  shows "lookup fs q = None"
proof (rule ccontr)
  assume a: "lookup fs q \<noteq> None"
  from under_subE [OF assms(3)] obtain rel where q: "q = sub k rel" by blast
  with a assms(2) have "rel \<noteq> []" by auto
  from wf_ancestor [OF assms(1) a [unfolded q] this] assms(2) show False
    by (auto dest: dir_at_lookup)
qed

lemma wf_no_child_of_leaf:
  assumes "wf_fs fs" and "lookup fs k = Some nd" and "\<not> is_dir nd" and "rel \<noteq> []"
  shows "lookup fs (sub k rel) = None"
proof (rule ccontr)
  assume "lookup fs (sub k rel) \<noteq> None"
  from wf_ancestor [OF assms(1) this assms(4)] assms(2,3) show False
    by (cases nd) (auto simp: dir_at_def)
qed

lemma nodes_store: "nodes (store k nd fs) = AList.update k nd (nodes fs)"
  by (simp add: store_def)

lemma dir_at_store:
  "dir_at (store k nd fs) q = (if q = k then is_dir nd else dir_at fs q)"
  by (cases nd) (auto simp: dir_at_def lookup_store)

lemma wf_store:
  assumes "wf_fs fs" and "list_all valid_name (snd k)" and "snd k = [] \<or> dir_at fs (parent k)"
    and "dir_at fs k \<Longrightarrow> is_dir nd"
  shows "wf_fs (store k nd fs)"
proof (rule wf_fsI)
  show "distinct (map fst (nodes (store k nd fs)))"
    using assms(1) by (simp add: nodes_store distinct_update wf_fs_def)
next
  fix q nd'
  assume l: "lookup (store k nd fs) q = Some nd'"
  have par: "dir_at fs p \<Longrightarrow> dir_at (store k nd fs) p" for p
    using assms(4) by (auto simp: dir_at_store)
  show "good (store k nd fs) q"
  proof (cases "q = k")
    case True
    with assms(2,3) par [of "parent k"] show ?thesis by (auto simp: good_def)
  next
    case False
    with l have "lookup fs q = Some nd'" by (simp add: lookup_store)
    from wf_good [OF assms(1) this] par [of "parent q"] show ?thesis by (auto simp: good_def)
  qed
qed

subsection \<open>The steps of the directory copy\<close>

lemma IsDir_fileinfo: "IsDir (fileinfo n nd) = is_dir nd"
  by (cases nd) (simp_all add: IsDir_def ModeDir_def ModePerm_def ModeSymlink_def
      bit.conj_disj_distribs and.assoc)

lemma Symlink_fileinfo: "(Mode (fileinfo n nd) AND ModeSymlink \<noteq> 0) = is_link (Some nd)"
  by (cases nd) (simp_all add: ModeDir_def ModePerm_def ModeSymlink_def
      bit.conj_disj_distribs and.assoc)

lemma Name_fileinfo [simp]: "Name (fileinfo n nd) = n"
  by (cases nd) simp_all

lemma stat_node_not_link:
  "\<not> is_link (lookup fs k) \<Longrightarrow>
   stat_node fs k = (case lookup fs k of None \<Rightarrow> Inl ENOENT | Some nd \<Rightarrow> Inr nd)"
  by (cases "lookup fs k" rule: is_link.cases) (simp_all add: stat_node_def follow_no_link)

lemma under_parent: "under q (parent k) \<Longrightarrow> under q k"
  using prefixeq_butlast [of "snd k"]
  by (auto simp: under_prefix parent_def intro: prefix_order.trans)

lemma not_under_parent: "snd k \<noteq> [] \<Longrightarrow> \<not> under k (parent k)"
proof
  assume "snd k \<noteq> []" and "under k (parent k)"
  then have "prefix (snd k) (butlast (snd k))"
    by (simp add: under_prefix parent_def)
  then have "length (snd k) \<le> length (butlast (snd k))"
    by (rule prefix_length_le)
  then have "length (snd k) \<le> length (snd k) - 1"
    by (simp only: length_butlast)
  moreover have "0 < length (snd k)"
    using \<open>snd k \<noteq> []\<close> by simp
  ultimately show False by arith
qed

lemma mkdir_node_None:
  assumes "mkdir_node k perm fs = (None, fs')"
  shows "lookup fs k = None \<and> dir_at fs (parent k) \<and> fs' = store k (Dir (perm AND ModePerm) (clock fs)) fs"
  using assms by (auto simp: mkdir_node_def dir_at_def split: option.splits node.splits)

lemma mkdir_node_Some:
  assumes "mkdir_node k perm fs = (Some err, fs')"
  shows "fs' = fs"
  using assms by (auto simp: mkdir_node_def split: option.splits node.splits)

lemma made_refl: "wf_fs fs \<Longrightarrow> \<forall>en. stat_node fs k \<noteq> Inl en \<Longrightarrow> made fs fs k"
  by (simp add: made_def)

lemma mkdirAll_ok:
  assumes "mkdirAll k perm fs = (None, fs')" and "wf_fs fs" and "list_all valid_name (snd k)"
  shows "made fs fs' k"
  using assms
proof (induction k perm fs arbitrary: fs' rule: mkdirAll.induct)
  case (1 k perm fs)
  note run = "1.prems"(1) and wf = "1.prems"(2) and names = "1.prems"(3)
  show ?case
  proof (cases "stat_node fs k")
    case (Inr nd)
    with run have "fs' = fs" by (simp add: mkdirAll.simps split: if_splits)
    with Inr wf show ?thesis by (simp add: made_def)
  next
    case (Inl en)
    define step where "step = (if 2 \<le> length (snd k) then mkdirAll (parent k) perm fs else (None, fs))"
    obtain r1 fs1 where s1: "step = (r1, fs1)" by (cases step)
    from run Inl s1 have r1: "r1 = None"
      by (cases r1) (simp_all add: mkdirAll.simps [of k] step_def [symmetric])
    have m1': "wf_fs fs1 \<and> (\<forall>q. lookup fs1 q = lookup fs q \<or>
                 (lookup fs q = None \<and> under q (parent k) \<and> dir_at fs1 q))"
    proof (cases "2 \<le> length (snd k)")
      case True
      with s1 r1 have "mkdirAll (parent k) perm fs = (None, fs1)" by (simp add: step_def)
      moreover have "list_all valid_name (snd (parent k))"
        using names by (auto simp: parent_def list_all_iff dest: in_set_butlastD)
      ultimately have "made fs fs1 (parent k)"
        using "1.IH" [OF Inl True] wf by blast
      then show ?thesis by (simp add: made_def)
    next
      case False
      with s1 have "fs1 = fs" by (simp add: step_def)
      with wf show ?thesis by simp
    qed
    from m1' have wf1: "wf_fs fs1" by simp
    from m1' have m1: "lookup fs1 q = lookup fs q \<or>
                 (lookup fs q = None \<and> under q (parent k) \<and> dir_at fs1 q)" for q
      by blast
    obtain r2 fs2 where s2: "mkdir_node k perm fs1 = (r2, fs2)"
      by (cases "mkdir_node k perm fs1")
    have keep: "lookup fs1 k = lookup fs k"
    proof (cases "snd k = []")
      case True
      then have "fs1 = fs" using s1 by (simp add: step_def)
      then show ?thesis by simp
    next
      case False
      from m1 [of k] not_under_parent [OF False] show ?thesis by blast
    qed
    show ?thesis
    proof (cases r2)
      case None
      with run Inl s1 r1 s2 have fs': "fs' = fs2"
        by (simp add: mkdirAll.simps [of k] step_def [symmetric])
      from mkdir_node_None [OF s2 [unfolded None]] have
        none: "lookup fs1 k = None" and par: "dir_at fs1 (parent k)"
        and fs2: "fs2 = store k (Dir (perm AND ModePerm) (clock fs1)) fs1"
        by simp_all
      have nd: "\<not> dir_at fs1 k" using none by (simp add: dir_at_def)
      have wf': "wf_fs fs2"
        unfolding fs2 using wf1 names par nd by (intro wf_store) simp_all
      have frame: "lookup fs2 q = lookup fs q \<or> (lookup fs q = None \<and> under q k \<and> dir_at fs2 q)" for q
      proof (cases "q = k")
        case True
        with none keep show ?thesis by (simp add: fs2 dir_at_store)
      next
        case False
        with m1 [of q] show ?thesis
          by (auto simp: fs2 lookup_store dir_at_store dest: under_parent)
      qed
      from none keep have "lookup fs k = None \<and> dir_at fs2 k"
        by (simp add: fs2 dir_at_store)
      with wf' frame show ?thesis by (simp add: made_def fs')
    next
      case (Some err)
      from mkdir_node_Some [OF s2 [unfolded Some]] have fs2: "fs2 = fs1" .
      from run Inl s1 r1 s2 Some fs2 obtain p m where d: "lookup fs1 k = Some (Dir p m)"
        by (auto simp: mkdirAll.simps [of k] step_def [symmetric] split: option.splits node.splits)
      with keep have "lookup fs k = Some (Dir p m)" by simp
      then have "stat_node fs k = Inr (Dir p m)" by (simp add: stat_node_not_link)
      with Inl show ?thesis by simp
    qed
  qed
qed

lemma is_child_iff: "is_child k q \<longleftrightarrow> snd q \<noteq> [] \<and> q = child k (last (snd q))"
proof -
  have "butlast b = a \<longleftrightarrow> b = a @ [last b]" if "b \<noteq> []" for a b :: "string list"
    using that by (metis append_butlast_last_id butlast_snoc)
  then show ?thesis
    by (cases q) (auto simp: is_child_def child_def)
qed

lemma is_child_child [simp]: "is_child k (child k n)"
  by (simp add: is_child_def child_def)

lemma set_entries:
  "set (entries fs k) = (\<lambda>(q, nd). fileinfo (last (snd q)) nd) ` {x \<in> set (nodes fs). is_child k (fst x)}"
  by (auto simp: entries_def split: prod.splits)

lemma entries_sound:
  assumes "wf_fs fs" and "f \<in> set (entries fs k)"
  shows "\<exists>nd. lookup fs (child k (Name f)) = Some nd \<and> f = fileinfo (Name f) nd \<and> valid_name (Name f)"
proof -
  from assms(2) obtain q nd where m: "(q, nd) \<in> set (nodes fs)" and c: "is_child k q"
    and f: "f = fileinfo (last (snd q)) nd"
    by (auto simp: set_entries)
  from m assms(1) have l: "lookup fs q = Some nd" by (simp add: wf_lookup)
  from c have q: "q = child k (last (snd q))" and ne: "snd q \<noteq> []" by (simp_all add: is_child_iff)
  from wf_good [OF assms(1) l] ne have "valid_name (last (snd q))"
    by (auto simp: good_def list_all_iff)
  with l q f show ?thesis by (metis Name_fileinfo)
qed

lemma entries_complete:
  assumes "wf_fs fs" and "lookup fs (child k n) = Some nd"
  shows "fileinfo n nd \<in> set (entries fs k)"
proof -
  from assms have "(child k n, nd) \<in> set (nodes fs)" by (simp add: wf_lookup)
  then have "(\<lambda>(q, nd). fileinfo (last (snd q)) nd) (child k n, nd) \<in> set (entries fs k)"
    unfolding set_entries by (intro imageI) simp
  then show ?thesis by (simp add: child_def)
qed

lemma distinct_map_insort_key:
  "distinct (map f (insort_key f x xs)) = (f x \<notin> f ` set xs \<and> distinct (map f xs))"
  by (induction xs) (auto simp: set_insort_key)

lemma distinct_map_sort_key: "distinct (map f (sort_key f xs)) = distinct (map f xs)"
  by (induction xs) (auto simp: distinct_map_insort_key)

lemma entries_distinct:
  assumes "wf_fs fs"
  shows "distinct (map Name (entries fs k))"
proof -
  let ?xs = "filter (\<lambda>(q, nd). is_child k q) (nodes fs)"
  let ?g = "\<lambda>(q, nd). fileinfo (last (snd q)) nd"
  from assms have d: "distinct (map fst (nodes fs))" by (simp add: wf_fs_def)
  then have dn: "distinct ?xs" by (simp add: distinct_map)
  have "inj_on (Name \<circ> ?g) (set ?xs)"
  proof (rule inj_onI)
    fix x y
    assume x: "x \<in> set ?xs" and y: "y \<in> set ?xs" and e: "(Name \<circ> ?g) x = (Name \<circ> ?g) y"
    obtain q nd where xq: "x = (q, nd)" by (cases x)
    obtain q' nd' where yq: "y = (q', nd')" by (cases y)
    from x y e xq yq have "q = q'" by (auto simp: is_child_iff)
    with x y xq yq d show "x = y"
      by (auto dest: eq_key_imp_eq_value)
  qed
  with dn have "distinct (map (Name \<circ> ?g) ?xs)"
    by (simp add: distinct_map)
  then show ?thesis
    by (simp add: entries_def distinct_map_sort_key)
qed

lemma ReadDir_dir:
  assumes "ioutil_ReadDir name fs = Inr files" and "\<not> is_link (lookup fs (path_of name))"
  shows "files = entries fs (path_of name) \<and> dir_at fs (path_of name)"
  using assms
  by (auto simp: ioutil_ReadDir_def follow_no_link dir_at_def
      split: sum.splits option.splits node.splits elim: is_link.elims)

lemma os_Create_new:
  assumes "os_Create name fs = (Inr out, fs1)" and "lookup fs (path_of name) = None"
  shows "out = path_of name \<and> dir_at fs (parent (path_of name))"
  using assms
  by (auto simp: os_Create_def follow_no_link dir_at_def split: option.splits node.splits)

lemma copyFile_new:
  assumes "copyFile src dst fs = (None, fs')" and "lookup fs (path_of dst) = None"
  shows "\<exists>nd. \<not> is_dir nd \<and> fs' = store (path_of dst) nd fs \<and> dir_at fs (parent (path_of dst))"
proof -
  from assms(1) obtain inp where op: "os_Open src fs = Inr inp"
    by (auto simp: copyFile_def split: sum.splits)
  from assms(1) op obtain out fs1 where cr: "os_Create dst fs = (Inr out, fs1)"
    by (auto simp: copyFile_def split: sum.splits prod.splits)
  from os_Create_new [OF cr assms(2)] have par: "dir_at fs (parent (path_of dst))"
    by simp
  have rd: "resolve fs dst = Inr (path_of dst)"
    using assms(2) by (simp add: resolve_def follow_no_link)
  from copyFile_None [OF assms(1)] obtain inp' out' c p a m where
    "resolve fs dst = Inr out'"
    and fs': "fs' = store out' (if inp' = out' then File [] (p AND ModePerm) (clock fs) (clock fs)
                               else File c (p AND ModePerm) m m) fs"
    by blast
  with rd have out': "out' = path_of dst" by simp
  let ?nd = "if inp' = out' then File [] (p AND ModePerm) (clock fs) (clock fs)
             else File c (p AND ModePerm) m m"
  have "\<not> is_dir ?nd" by simp
  with fs' out' par show ?thesis by blast
qed

lemma Clean_path_string: "filepath_Clean s = s \<Longrightarrow> s = path_string (path_of s)"
  by (simp add: filepath_Clean_def)

lemma path_of_Join_clean:
  assumes "filepath_Clean s = s" and "valid_name n"
  shows "path_of (filepath_Join [s, n]) = child (path_of s) n"
  using path_of_Join [OF normal_path_of assms(2), of s] Clean_path_string [OF assms(1)] by simp

lemma not_under_child_disjoint:
  assumes "disjoint S D"
  shows "\<not> under (child D n) (sub (child S m) rel)"
proof
  assume "under (child D n) (sub (child S m) rel)"
  then have "under D (sub S (m # rel))" by (auto dest: under_child simp: sub_child)
  moreover have "under S (sub S (m # rel))" by simp
  ultimately show False using disjoint_under [OF assms] by blast
qed

lemma exists_above:
  assumes "wf_fs fs" and "dir_at fs D" and "under q D"
  shows "lookup fs q \<noteq> None"
proof -
  from under_subE [OF assms(3)] obtain rel where D: "D = sub q rel" by blast
  from assms(2) have l: "lookup fs D \<noteq> None" by (auto dest: dir_at_lookup)
  show ?thesis
  proof (cases "rel = []")
    case True
    with D l show ?thesis by simp
  next
    case False
    from wf_ancestor [OF assms(1) l [unfolded D] False] show ?thesis by (auto dest: dir_at_lookup)
  qed
qed

lemma entry_ok_frame:
  assumes "entry_ok fs S D f" and "\<And>q. \<not> under (child D n) q \<Longrightarrow> lookup fs1 q = lookup fs q"
    and "Name f \<noteq> n" and "disjoint S D"
  shows "entry_ok fs1 S D f"
proof -
  have "\<not> under (child D n) (child S (Name f))"
    using not_under_child_disjoint [OF assms(4), of n "Name f" "[]"] by simp
  then have 1: "lookup fs1 (child S (Name f)) = lookup fs (child S (Name f))"
    by (rule assms(2))
  have 2: "lookup fs1 q = None" if "under (child D (Name f)) q" for q
  proof -
    from that assms(3) have "\<not> under (child D n) q" by (auto dest: under_children)
    from assms(1) have "\<forall>q. under (child D (Name f)) q \<longrightarrow> lookup fs q = None"
      unfolding entry_ok_def by blast
    with assms(2) [OF \<open>\<not> under (child D n) q\<close>] that show ?thesis by simp
  qed
  from assms(1) 1 2 show ?thesis by (simp add: entry_ok_def)
qed

lemma valid_names_dir:
  assumes "wf_fs fs" and "dir_at fs D" and "valid_name n"
  shows "list_all valid_name (snd (child D n))"
proof -
  from assms(2) obtain nd where "lookup fs D = Some nd" by (auto dest: dir_at_lookup)
  from wf_good [OF assms(1) this] assms(3) show ?thesis by (simp add: good_def child_def)
qed

lemma files_copied_Cons:
  assumes rest: "files_copied fs1 fs' S D files"
    and frame1: "\<And>q. \<not> under (child D (Name f)) q \<Longrightarrow> lookup fs1 q = lookup fs q"
    and links1: "\<And>rel. is_link (lookup fs (sub (child S (Name f)) rel)) \<Longrightarrow>
                   lookup fs1 (sub (child D (Name f)) rel) = None"
    and dn: "Name f \<notin> Name ` set files" and dj: "disjoint S D"
  shows "files_copied fs fs' S D (f # files)"
proof -
  from rest have wf': "wf_fs fs'"
    unfolding files_copied_def by blast
  from rest have frame2: "(\<forall>g\<in>set files. \<not> under (child D (Name g)) q) \<Longrightarrow> lookup fs' q = lookup fs1 q" for q
    unfolding files_copied_def by blast
  from rest have links2: "g \<in> set files \<Longrightarrow> is_link (lookup fs1 (sub (child S (Name g)) rel)) \<Longrightarrow>
                   lookup fs' (sub (child D (Name g)) rel) = None" for g rel
    unfolding files_copied_def by blast
  have other: "\<forall>g\<in>set files. \<not> under (child D (Name g)) (sub (child D (Name f)) rel)" for rel
  proof
    fix g assume g: "g \<in> set files"
    show "\<not> under (child D (Name g)) (sub (child D (Name f)) rel)"
    proof
      assume "under (child D (Name g)) (sub (child D (Name f)) rel)"
      from under_children [OF this under_sub] have "Name f = Name g" by simp
      with g have "Name f \<in> Name ` set files" by (simp only: imageI)
      with dn show False by contradiction
    qed
  qed
  have a: "lookup fs' q = lookup fs q" if "\<forall>g\<in>set (f # files). \<not> under (child D (Name g)) q" for q
    using that frame1 [of q] frame2 [of q] by simp
  have b: "lookup fs' (sub (child D (Name f)) rel) = None"
    if "is_link (lookup fs (sub (child S (Name f)) rel))" for rel
    using links1 [OF that] frame2 [OF other, of rel] by simp
  have c: "lookup fs' (sub (child D (Name g)) rel) = None"
    if "g \<in> set files" and "is_link (lookup fs (sub (child S (Name g)) rel))" for g rel
  proof -
    have "lookup fs1 (sub (child S (Name g)) rel) = lookup fs (sub (child S (Name g)) rel)"
      by (rule frame1) (rule not_under_child_disjoint [OF dj])
    with that links2 [of g rel] show ?thesis by simp
  qed
  from wf' a b c show ?thesis
    by (auto simp: files_copied_def)
qed

subsection \<open>The directory copy leaves the links out\<close>

lemma not_under_child_self: "\<not> under (child k n) k"
  by (simp add: under_prefix child_def prefix_def)

lemma files_step:
  assumes Q: "dir_copied n" and cs: "filepath_Clean src = src" and cd: "filepath_Clean dst = dst"
    and dj: "disjoint (path_of src) (path_of dst)"
  shows "copyDir_files n src dst files fs = Some (None, fs') \<Longrightarrow> wf_fs fs \<Longrightarrow>
     dir_at fs (path_of dst) \<Longrightarrow>
     \<forall>f\<in>set files. entry_ok fs (path_of src) (path_of dst) f \<Longrightarrow> distinct (map Name files) \<Longrightarrow>
     files_copied fs fs' (path_of src) (path_of dst) files"
proof (induction files arbitrary: fs)
  case Nil
  then show ?case by (simp add: files_copied_def)
next
  case (Cons f files)
  let ?S = "path_of src" and ?D = "path_of dst"
  note run = Cons.prems(1) and wf = Cons.prems(2) and dd = Cons.prems(3)
  from Cons.prems(4) have ok: "entry_ok fs ?S ?D f"
    and oks: "\<And>g. g \<in> set files \<Longrightarrow> entry_ok fs ?S ?D g" by simp_all
  from ok obtain nd where vn: "valid_name (Name f)"
    and l: "lookup fs (child ?S (Name f)) = Some nd" and f: "f = fileinfo (Name f) nd"
    unfolding entry_ok_def by blast
  from ok have empty: "under (child ?D (Name f)) q \<Longrightarrow> lookup fs q = None" for q
    unfolding entry_ok_def by blast
  from Cons.prems(5) have dn: "Name f \<notin> Name ` set files" and dns: "distinct (map Name files)"
    by simp_all
  have sp: "path_of (filepath_Join [src, Name f]) = child ?S (Name f)"
    by (rule path_of_Join_clean [OF cs vn])
  have dp: "path_of (filepath_Join [dst, Name f]) = child ?D (Name f)"
    by (rule path_of_Join_clean [OF cd vn])
  have isd: "IsDir f = is_dir nd" by (subst f) (rule IsDir_fileinfo)
  have isl: "(Mode f AND ModeSymlink \<noteq> 0) = is_link (Some nd)" by (subst f) (rule Symlink_fileinfo)
  have names: "Name g \<noteq> Name f" if "g \<in> set files" for g
  proof
    assume "Name g = Name f"
    with that have "Name f \<in> Name ` set files" by (metis imageI)
    with dn show False by contradiction
  qed
  have names_ok: "list_all valid_name (snd (child ?D (Name f)))"
    by (rule valid_names_dir [OF wf dd vn])
  have step: "files_copied fs fs' ?S ?D (f # files)"
    if rest: "copyDir_files n src dst files fs1 = Some (None, fs')" and wf1: "wf_fs fs1"
      and frame1: "\<And>q. \<not> under (child ?D (Name f)) q \<Longrightarrow> lookup fs1 q = lookup fs q"
      and links1: "\<And>rel. is_link (lookup fs (sub (child ?S (Name f)) rel)) \<Longrightarrow>
             lookup fs1 (sub (child ?D (Name f)) rel) = None" for fs1
  proof -
    have "lookup fs1 ?D = lookup fs ?D" by (rule frame1) (rule not_under_child_self)
    with dd have d1: "dir_at fs1 ?D" by (simp add: dir_at_def)
    have oks1: "\<forall>g\<in>set files. entry_ok fs1 ?S ?D g"
    proof
      fix g assume g: "g \<in> set files"
      show "entry_ok fs1 ?S ?D g"
        by (rule entry_ok_frame [OF oks [OF g] frame1 names [OF g] dj])
    qed
    from Cons.IH [OF rest wf1 d1 oks1 dns] have "files_copied fs1 fs' ?S ?D files" .
    from files_copied_Cons [OF this frame1 links1 dn dj] show ?thesis .
  qed
  show ?case
  proof (cases nd)
    case (Dir p m)
    with isd have d: "IsDir f" by simp
    with run obtain fs1
      where c1: "copyDir n (filepath_Join [src, Name f]) (filepath_Join [dst, Name f]) fs = Some (None, fs1)"
        and rest: "copyDir_files n src dst files fs1 = Some (None, fs')"
      by (auto simp: Let_def split: option.splits prod.splits)
    have pre1: "disjoint (path_of (filepath_Join [src, Name f])) (path_of (filepath_Join [dst, Name f]))"
      unfolding sp dp by (rule disjoint_children [OF dj])
    have pre2: "\<not> is_link (lookup fs (path_of (filepath_Join [src, Name f])))"
      unfolding sp using l Dir by simp
    have pre3: "list_all valid_name (snd (path_of (filepath_Join [dst, Name f])))"
      unfolding dp by (rule names_ok)
    from Q [unfolded dir_copied_def, rule_format, OF c1 wf pre1 pre2 pre3, unfolded sp dp]
    have wf1: "wf_fs fs1"
      and fr: "\<And>q. \<not> under (child ?D (Name f)) q \<Longrightarrow>
              lookup fs1 q = lookup fs q \<or> (lookup fs q = None \<and> under q (child ?D (Name f)))"
      and lk: "links_skipped fs fs1 (child ?S (Name f)) (child ?D (Name f))"
      by blast+
    have frame1: "lookup fs1 q = lookup fs q" if nu: "\<not> under (child ?D (Name f)) q" for q
    proof (rule ccontr)
      assume "lookup fs1 q \<noteq> lookup fs q"
      with fr [OF nu] have none: "lookup fs q = None" and u: "under q (child ?D (Name f))" by simp_all
      from under_child_cases [OF u] nu have "under q ?D" by auto
      from exists_above [OF wf dd this] none show False by simp
    qed
    have links1: "lookup fs1 (sub (child ?D (Name f)) rel) = None"
      if "is_link (lookup fs (sub (child ?S (Name f)) rel))" for rel
    proof -
      from that l Dir have "rel \<noteq> []" by (cases rel) auto
      with lk that show ?thesis by (simp add: links_skipped_def)
    qed
    show ?thesis by (rule step [OF rest wf1 frame1 links1])
  next
    case (Symlink t m)
    with isd isl have "\<not> IsDir f" and "Mode f AND ModeSymlink \<noteq> 0" by simp_all
    with run have rest: "copyDir_files n src dst files fs = Some (None, fs')"
      by (simp add: Let_def)
    show ?thesis
      by (rule step [OF rest wf]) (simp_all add: empty)
  next
    case (File c p a m)
    with isd isl have "\<not> IsDir f" and "\<not> Mode f AND ModeSymlink \<noteq> 0" by simp_all
    with run obtain fs1
      where cf: "copyFile (filepath_Join [src, Name f]) (filepath_Join [dst, Name f]) fs = (None, fs1)"
        and rest: "copyDir_files n src dst files fs1 = Some (None, fs')"
      by (auto simp: Let_def split: option.splits prod.splits)
    have none: "lookup fs (path_of (filepath_Join [dst, Name f])) = None"
      unfolding dp by (rule empty) simp
    from copyFile_new [OF cf none, unfolded dp] obtain nd'
      where nd': "\<not> is_dir nd'" and fs1: "fs1 = store (child ?D (Name f)) nd' fs" by blast
    have wf1: "wf_fs fs1"
      unfolding fs1
    proof (rule wf_store [OF wf names_ok])
      show "snd (child ?D (Name f)) = [] \<or> dir_at fs (parent (child ?D (Name f)))"
        using dd by simp
      assume "dir_at fs (child ?D (Name f))"
      with none [unfolded dp] show "is_dir nd'" by (simp add: dir_at_def)
    qed
    have frame1: "lookup fs1 q = lookup fs q" if nu: "\<not> under (child ?D (Name f)) q" for q
    proof -
      from nu have "q \<noteq> child ?D (Name f)" by auto
      then show ?thesis by (simp add: fs1 lookup_store)
    qed
    have links1: "lookup fs1 (sub (child ?D (Name f)) rel) = None"
      if lnk: "is_link (lookup fs (sub (child ?S (Name f)) rel))" for rel
    proof (cases "rel = []")
      case True
      with lnk l File show ?thesis by simp
    next
      case False
      from wf_no_child_of_leaf [OF wf l _ False] File lnk show ?thesis by simp
    qed
    show ?thesis by (rule step [OF rest wf1 frame1 links1])
  qed
qed

lemma made_same: "made fs fs1 k \<Longrightarrow> lookup fs q \<noteq> None \<Longrightarrow> lookup fs1 q = lookup fs q"
  unfolding made_def by metis

lemma dir_step:
  assumes Q: "dir_copied n"
  shows "dir_copied (Suc n)"
  unfolding dir_copied_def
proof (intro allI impI)
  fix src0 dst0 fs fs'
  let ?S = "path_of src0" and ?D = "path_of dst0"
  let ?src = "filepath_Clean src0" and ?dst = "filepath_Clean dst0"
  assume run: "copyDir (Suc n) src0 dst0 fs = Some (None, fs')" and wf: "wf_fs fs"
    and dj: "disjoint ?S ?D" and nl: "\<not> is_link (lookup fs ?S)"
    and names: "list_all valid_name (snd ?D)"
  from run obtain si where st: "os_Stat ?src fs = Inr si" and isd: "IsDir si"
    by (auto simp: Let_def split: sum.splits if_splits)
  from run st isd obtain err where sd: "os_Stat ?dst fs = Inl err"
    by (auto simp: Let_def split: sum.splits if_splits)
  from run st isd sd obtain fs1 where mk: "os_MkdirAll ?dst (Mode si) fs = (None, fs1)"
    by (auto simp: Let_def split: sum.splits if_splits prod.splits option.splits)
  from run st isd sd mk obtain files where rd: "ioutil_ReadDir ?src fs1 = Inr files"
    and cf: "copyDir_files n ?src ?dst files fs1 = Some (None, fs')"
    by (auto simp: Let_def split: sum.splits if_splits prod.splits option.splits)
  from st isd nl obtain nd where lS: "lookup fs ?S = Some nd" and "is_dir nd"
    by (auto simp: os_Stat_def stat_node_not_link IsDir_fileinfo split: sum.splits option.splits)
  from sd obtain en where "stat_node fs ?D = Inl en"
    by (auto simp: os_Stat_def split: sum.splits)
  with mkdirAll_ok [OF mk [unfolded os_MkdirAll_def path_of_Clean] wf names]
  have md: "made fs fs1 ?D" and lD: "lookup fs ?D = None" and dD: "dir_at fs1 ?D"
    by (auto simp: made_def)
  from md have wf1: "wf_fs fs1" by (simp add: made_def)
  from md have m1: "lookup fs1 q = lookup fs q \<or> (lookup fs q = None \<and> under q ?D)" for q
    unfolding made_def by blast
  have lS1: "lookup fs1 ?S = lookup fs ?S" using made_same [OF md] lS by simp
  with nl have "\<not> is_link (lookup fs1 (path_of ?src))" by simp
  from ReadDir_dir [OF rd this] have files: "files = entries fs1 ?S" by simp
  have below: "lookup fs1 q = None" if u: "under (child ?D m) q" for q m
  proof -
    from u have uD: "under ?D q" by (rule under_child)
    from wf_nothing_under [OF wf lD uD] have none: "lookup fs q = None" .
    have "\<not> under q ?D"
    proof
      assume "under q ?D"
      with uD have "q = ?D" by (auto dest: under_antisym)
      with u show False by (simp add: not_under_child_self)
    qed
    with m1 [of q] none show ?thesis by auto
  qed
  have oks: "\<forall>f\<in>set files. entry_ok fs1 (path_of ?src) (path_of ?dst) f"
  proof
    fix f assume "f \<in> set files"
    with files have "f \<in> set (entries fs1 ?S)" by simp
    from entries_sound [OF wf1 this] below [of "Name f"]
    have "entry_ok fs1 ?S ?D f"
      unfolding entry_ok_def by blast
    then show "entry_ok fs1 (path_of ?src) (path_of ?dst) f" by simp
  qed
  have dn: "distinct (map Name files)" unfolding files by (rule entries_distinct [OF wf1])
  have "files_copied fs1 fs' (path_of ?src) (path_of ?dst) files"
    by (rule files_step [OF Q _ _ _ cf wf1 _ oks dn]) (simp_all add: dj dD)
  then have fc: "files_copied fs1 fs' ?S ?D files" by simp
  from fc have wf': "wf_fs fs'" unfolding files_copied_def by blast
  from fc have frame2: "(\<forall>g\<in>set files. \<not> under (child ?D (Name g)) q) \<Longrightarrow> lookup fs' q = lookup fs1 q" for q
    unfolding files_copied_def by blast
  from fc have links2: "g \<in> set files \<Longrightarrow> is_link (lookup fs1 (sub (child ?S (Name g)) rel)) \<Longrightarrow>
                   lookup fs' (sub (child ?D (Name g)) rel) = None" for g rel
    unfolding files_copied_def by blast
  have frame: "lookup fs' q = lookup fs q \<or> (lookup fs q = None \<and> under q ?D)"
    if nu: "\<not> under ?D q" for q
  proof -
    from nu have "\<forall>g\<in>set files. \<not> under (child ?D (Name g)) q" by (auto dest: under_child)
    from frame2 [OF this] m1 [of q] show ?thesis by simp
  qed
  have links: "links_skipped fs fs' ?S ?D"
    unfolding links_skipped_def
  proof (intro allI impI, elim conjE)
    fix rel assume ne: "rel \<noteq> []" and lnk: "is_link (lookup fs (sub ?S rel))"
    from ne obtain m rel' where rel: "rel = m # rel'" by (cases rel) auto
    from lnk have some: "lookup fs (sub (child ?S m) rel') \<noteq> None"
      by (cases "lookup fs (sub ?S rel)") (auto simp: rel sub_child)
    have "lookup fs (child ?S m) \<noteq> None"
    proof (cases "rel' = []")
      case True
      with some show ?thesis by simp
    next
      case False
      from wf_ancestor [OF wf some False] show ?thesis by (auto dest: dir_at_lookup)
    qed
    then obtain nd0 where l0: "lookup fs (child ?S m) = Some nd0" by auto
    with made_same [OF md, of "child ?S m"] have "lookup fs1 (child ?S m) = Some nd0" by simp
    from entries_complete [OF wf1 this] have mem: "fileinfo m nd0 \<in> set files" by (simp add: files)
    from made_same [OF md some] lnk
    have "is_link (lookup fs1 (sub (child ?S (Name (fileinfo m nd0))) rel'))"
      by (simp add: rel sub_child)
    from links2 [OF mem this] show "lookup fs' (sub ?D rel) = None"
      by (simp add: rel sub_child)
  qed
  from wf' frame links
  show "wf_fs fs' \<and>
        (\<forall>q. \<not> under ?D q \<longrightarrow> lookup fs' q = lookup fs q \<or> (lookup fs q = None \<and> under q ?D)) \<and>
        links_skipped fs fs' ?S ?D"
    by blast
qed

lemma dir_copied_all: "dir_copied n"
proof (induction n)
  case 0
  show ?case by (simp add: dir_copied_def)
next
  case (Suc n)
  then show ?case by (rule dir_step)
qed

subsection \<open>The plan and the loop over its entries\<close>

lemma tags_of_update:
  "tags_of (AList.update k v pulls) img = (if img = k then v else tags_of pulls img)"
  by (simp add: tags_of_def update_conv')

lemma plan_pulls_Cons:
  "plan_pulls E appName (service # services) pulls =
      plan_pulls E appName services
        (if Image service \<noteq> [] then
           AList.update (normalized (Image service))
             (tags_of pulls (normalized (Image service)) @ [Tag E service appName]) pulls
         else pulls)"
  by (simp add: plan_pulls_def)

lemma plan_pulls_tags:
  "tags_of (plan_pulls E appName services pulls) img =
     tags_of pulls img @ registered_tags E appName services img"
proof (induction services arbitrary: pulls)
  case Nil
  then show ?case by (simp add: plan_pulls_def registered_tags_def)
next
  case (Cons service services)
  show ?case
    unfolding plan_pulls_Cons Cons.IH
    by (auto simp: tags_of_update registered_tags_def)
qed

lemma plan_pulls_distinct:
  "distinct (map fst pulls) \<Longrightarrow> distinct (map fst (plan_pulls E appName services pulls))"
proof (induction services arbitrary: pulls)
  case Nil
  then show ?case by (simp add: plan_pulls_def)
next
  case (Cons service services)
  show ?case
    unfolding plan_pulls_Cons
    by (rule Cons.IH) (simp add: Cons.prems distinct_update)
qed

lemma plan_pulls_entry:
  assumes "(img, tags) \<in> set (plan_pulls E appName services [])"
  shows "tags = registered_tags E appName services img"
proof -
  have "distinct (map fst (plan_pulls E appName services []))"
    by (rule plan_pulls_distinct) simp
  with assms have "map_of (plan_pulls E appName services []) img = Some tags" by simp
  then have "tags_of (plan_pulls E appName services []) img = tags" by (simp add: tags_of_def)
  then show ?thesis by (simp add: plan_pulls_tags) (simp add: tags_of_def)
qed

lemma plan_pulls_has_entry:
  assumes "service \<in> set services" and "Image service \<noteq> []"
  shows "(normalized (Image service), registered_tags E appName services (normalized (Image service)))
           \<in> set (plan_pulls E appName services [])"
proof -
  from assms have "normalized (Image service) \<in> fst ` set (plan_pulls E appName services [])"
    by (auto simp: plan_pulls_keys)
  then obtain tags where e: "(normalized (Image service), tags) \<in> set (plan_pulls E appName services [])"
    by auto
  from plan_pulls_entry [OF e] e show ?thesis by simp
qed

lemma Build_pulls_append:
  "Build_pulls E opts (pre @ post) w =
     (case Build_pulls E opts pre w of
        (Some err, w1) \<Rightarrow> (Some err, w1)
      | (None, w1) \<Rightarrow> Build_pulls E opts post w1)"
proof (induction pre arbitrary: w)
  case Nil
  then show ?case by simp
next
  case (Cons p pre)
  obtain img tags where p: "p = (img, tags)" by (cases p)
  show ?case
    by (cases "pull_image E opts img tags w") (auto simp: p Cons.IH split: option.splits)
qed

lemma Build_after_builds:
  assumes "runOrder E (Options_Service opts) = Inr services"
    and "Build_builds E n dir appName opts (filter (\<lambda>service. Image service = []) services) Map.empty w
           = Some (Value None, bc, w1)"
  shows "Build E n dir appName opts w =
           (case Build_pulls E opts (range_order E (plan_pulls E appName services [])) w1 of
              (r, w2) \<Rightarrow> Some (Value r, w2))"
  using assms by (simp add: Build_def Build_plan_value)

lemma Build_at_entry:
  assumes "runOrder E (Options_Service opts) = Inr services"
    and "Build_builds E n dir appName opts (filter (\<lambda>service. Image service = []) services) Map.empty w
           = Some (Value None, bc, w1)"
    and "range_order E (plan_pulls E appName services []) = pre @ (img, tags) # post"
  shows "Build E n dir appName opts w =
           (case Build_pulls E opts pre w1 of
              (Some err, wp) \<Rightarrow> Some (Value (Some err), wp)
            | (None, wp) \<Rightarrow>
                (case pull_image E opts img tags wp of
                   (Some err, w') \<Rightarrow> Some (Value (Some err), w')
                 | (None, w') \<Rightarrow> (case Build_pulls E opts post w' of (r, w2) \<Rightarrow> Some (Value r, w2))))"
  unfolding Build_after_builds [OF assms(1,2)] assms(3) Build_pulls_append
  by (auto split: prod.splits option.splits)

lemma Build_pulls_trace:
  assumes "Build_pulls E opts pulls w = (r, w')"
  shows "\<exists>evs. trace w' = trace w @ evs"
  using Build_pulls_images [OF assms, of UNIV] by auto

lemma run_all_first:
  assumes "run_all E opts (cmd # cmds) w = (r, w')"
  shows "\<exists>evs. trace w' = trace w @ RunEv cmd (tag_ropts opts) # evs"
  using run_all_trace [OF assms] by (cases r) auto

lemma run_all_prefix:
  assumes "run_all E opts cmds w = (r, w')"
  shows "\<exists>evs. trace w' = trace w @ evs"
  using run_all_trace [OF assms] by (cases r) auto

lemma run_all_fail:
  assumes "run_all E opts cmds w = (Some err, w')"
  shows "\<exists>k<length cmds. \<exists>wk e.
           run_all E opts (take k cmds) w = (None, wk) \<and>
           DefaultRunner_Run E (cmds ! k) (tag_ropts opts) wk = (Some e, w') \<and>
           err = ErrorString (''build error: '' @ error_Error e) \<and>
           trace w' = trace w @ map (\<lambda>cmd. RunEv cmd (tag_ropts opts)) (take (Suc k) cmds)"
  using assms
proof (induction cmds arbitrary: w)
  case Nil
  then show ?case by simp
next
  case (Cons cmd cmds)
  obtain p w1 where c: "DefaultRunner_Run E cmd (tag_ropts opts) w = (p, w1)"
    by (cases "DefaultRunner_Run E cmd (tag_ropts opts) w")
  note t = trace_Run [OF c]
  show ?case
  proof (cases p)
    case (Some e)
    with Cons.prems c t have "run_all E opts (take 0 (cmd # cmds)) w = (None, w) \<and>
           DefaultRunner_Run E ((cmd # cmds) ! 0) (tag_ropts opts) w = (Some e, w') \<and>
           err = ErrorString (''build error: '' @ error_Error e) \<and>
           trace w' = trace w @ map (\<lambda>cmd. RunEv cmd (tag_ropts opts)) (take (Suc 0) (cmd # cmds))"
      by auto
    then show ?thesis by (intro exI [of _ 0]) blast
  next
    case None
    with Cons.prems c have "run_all E opts cmds w1 = (Some err, w')" by simp
    from Cons.IH [OF this] obtain k wk e where k: "k < length cmds"
      and a: "run_all E opts (take k cmds) w1 = (None, wk)"
      and b: "DefaultRunner_Run E (cmds ! k) (tag_ropts opts) wk = (Some e, w')"
      and e: "err = ErrorString (''build error: '' @ error_Error e)"
      and tr: "trace w' = trace w1 @ map (\<lambda>cmd. RunEv cmd (tag_ropts opts)) (take (Suc k) cmds)"
      by blast
    from a b e tr c None t k
    have "Suc k < length (cmd # cmds) \<and> run_all E opts (take (Suc k) (cmd # cmds)) w = (None, wk) \<and>
           DefaultRunner_Run E ((cmd # cmds) ! Suc k) (tag_ropts opts) wk = (Some e, w') \<and>
           err = ErrorString (''build error: '' @ error_Error e) \<and>
           trace w' = trace w @ map (\<lambda>cmd. RunEv cmd (tag_ropts opts)) (take (Suc (Suc k)) (cmd # cmds))"
      by simp
    then show ?thesis by blast
  qed
qed

lemma run_all_ok:
  assumes "run_all E opts cmds w = (None, w')"
  shows "trace w' = trace w @ map (\<lambda>cmd. RunEv cmd (tag_ropts opts)) cmds"
  using run_all_trace [OF assms] by simp

lemma Build_pulls_first:
  assumes "Build_pulls E opts ((img, tags) # post) w = (r, w')"
  shows "\<exists>q wq rest.
           DefaultRunner_CombinedOutput E (Docker [''images'', ''-q'', img]) w = (q, wq) \<and>
           trace w' = trace w @ OutputEv (Docker [''images'', ''-q'', img]) # rest \<and>
           (\<forall>output. q = Inr output \<and> (\<not> Cache opts \<or> output = []) \<longrightarrow>
              (\<exists>rest'. rest = RunEv (Docker [''pull'', img]) (tag_ropts opts) # rest'))"
proof -
  obtain q wq where c: "DefaultRunner_CombinedOutput E (Docker [''images'', ''-q'', img]) w = (q, wq)"
    by (cases "DefaultRunner_CombinedOutput E (Docker [''images'', ''-q'', img]) w")
  note t = trace_CombinedOutput [OF c]
  obtain r1 w1 where p: "pull_image E opts img tags w = (r1, w1)"
    by (cases "pull_image E opts img tags w")
  have "\<exists>evs. trace w' = trace w1 @ evs"
  proof (cases r1)
    case None
    with assms p have "Build_pulls E opts post w1 = (r, w')" by simp
    then show ?thesis by (rule Build_pulls_trace)
  next
    case (Some err)
    with assms p have "trace w' = trace w1 @ []" by simp
    then show ?thesis by (rule exI)
  qed
  then obtain evs where evs: "trace w' = trace w1 @ evs" ..
  have "\<exists>rest. trace w1 = trace wq @ rest \<and>
          (\<forall>output. q = Inr output \<and> (\<not> Cache opts \<or> output = []) \<longrightarrow>
              (\<exists>rest'. rest = RunEv (Docker [''pull'', img]) (tag_ropts opts) # rest'))"
  proof (cases q)
    case (Inl err)
    with p c have "trace w1 = trace wq @ []" by (simp add: pull_image_run_all)
    with Inl show ?thesis by simp
  next
    case (Inr outp)
    with p c have ra: "run_all E opts (pull_cmds opts img tags outp) wq = (r1, w1)"
      by (simp add: pull_image_run_all)
    show ?thesis
    proof (cases "\<not> Cache opts \<or> outp = []")
      case True
      with ra have "run_all E opts (Docker [''pull'', img] # map (\<lambda>tag. Docker [''tag'', img, tag]) tags) wq = (r1, w1)"
        by (simp add: pull_cmds_def)
      from run_all_first [OF this] obtain rest' where
        "trace w1 = trace wq @ RunEv (Docker [''pull'', img]) (tag_ropts opts) # rest'" ..
      then show ?thesis by simp
    next
      case False
      from run_all_prefix [OF ra] obtain rest where "trace w1 = trace wq @ rest" ..
      with False Inr show ?thesis by simp
    qed
  qed
  then obtain rest where rest: "trace w1 = trace wq @ rest"
    and pl: "\<forall>output. q = Inr output \<and> (\<not> Cache opts \<or> output = []) \<longrightarrow>
              (\<exists>rest'. rest = RunEv (Docker [''pull'', img]) (tag_ropts opts) # rest')"
    by (elim exE conjE)
  have t': "trace w' = trace w @ OutputEv (Docker [''images'', ''-q'', img]) # (rest @ evs)"
    by (simp add: evs rest t)
  have pl': "\<forall>output. q = Inr output \<and> (\<not> Cache opts \<or> output = []) \<longrightarrow>
              (\<exists>rest'. rest @ evs = RunEv (Docker [''pull'', img]) (tag_ropts opts) # rest')"
  proof (intro allI impI)
    fix outp assume "q = Inr outp \<and> (\<not> Cache opts \<or> outp = [])"
    with pl obtain rest' where "rest = RunEv (Docker [''pull'', img]) (tag_ropts opts) # rest'"
      by blast
    then have "rest @ evs = RunEv (Docker [''pull'', img]) (tag_ropts opts) # (rest' @ evs)" by simp
    then show "\<exists>rest'. rest @ evs = RunEv (Docker [''pull'', img]) (tag_ropts opts) # rest'" by (rule exI)
  qed
  show ?thesis
    by (rule exI [of _ q], rule exI [of _ wq], rule exI [of _ "rest @ evs"])
       (rule conjI [OF c], rule conjI [OF t' pl'])
qed

lemma write_back_steps:
  assumes "CacheDir opts \<noteq> []"
    and "DefaultRunner_Run E (Docker [''create'', ''--name'', hash, tag]) (build_ropts opts) w = (r1, wa)"
    and "exec_Command_Run E [''rm'', ''-rf'', filepath_Join [CacheDir opts, hash]]
           (case r1 of None \<Rightarrow> wa | Some err \<Rightarrow> send (''cache error: '' @ error_Error err) wa) = (r2, wb)"
    and "DefaultRunner_Run E (Docker [''cp'', hash @ '':/var/cache/build'', filepath_Join [CacheDir opts, hash]])
           (build_ropts opts) wb = (r3, wc)"
    and "DefaultRunner_Run E (Docker [''rm'', hash]) (build_ropts opts)
           (case r3 of None \<Rightarrow> wc | Some err \<Rightarrow> send ''ignoring build cache'' wc) = (r4, wd)"
  shows "write_back E opts hash tag w =
           (case r4 of None \<Rightarrow> wd | Some err \<Rightarrow> send (''cache error: '' @ error_Error err) wd)"
    and "trace (case r4 of None \<Rightarrow> wd | Some err \<Rightarrow> send (''cache error: '' @ error_Error err) wd) =
           trace w @ [RunEv (Docker [''create'', ''--name'', hash, tag]) (build_ropts opts)]
             @ (case r1 of None \<Rightarrow> [] | Some err \<Rightarrow> [SendEv (''cache error: '' @ error_Error err)])
             @ [ExecEv [''rm'', ''-rf'', filepath_Join [CacheDir opts, hash]],
                RunEv (Docker [''cp'', hash @ '':/var/cache/build'', filepath_Join [CacheDir opts, hash]])
                  (build_ropts opts)]
             @ (case r3 of None \<Rightarrow> [] | Some err \<Rightarrow> [SendEv ''ignoring build cache''])
             @ [RunEv (Docker [''rm'', hash]) (build_ropts opts)]
             @ (case r4 of None \<Rightarrow> [] | Some err \<Rightarrow> [SendEv (''cache error: '' @ error_Error err)])"
proof -
  show "write_back E opts hash tag w =
           (case r4 of None \<Rightarrow> wd | Some err \<Rightarrow> send (''cache error: '' @ error_Error err) wd)"
    using assms by (cases r1; cases r3; cases r4) (simp_all add: write_back_def)
  note t1 = trace_Run [OF assms(2)] and t2 = trace_exec [OF assms(3)]
    and t3 = trace_Run [OF assms(4)] and t4 = trace_Run [OF assms(5)]
  show "trace (case r4 of None \<Rightarrow> wd | Some err \<Rightarrow> send (''cache error: '' @ error_Error err) wd) =
           trace w @ [RunEv (Docker [''create'', ''--name'', hash, tag]) (build_ropts opts)]
             @ (case r1 of None \<Rightarrow> [] | Some err \<Rightarrow> [SendEv (''cache error: '' @ error_Error err)])
             @ [ExecEv [''rm'', ''-rf'', filepath_Join [CacheDir opts, hash]],
                RunEv (Docker [''cp'', hash @ '':/var/cache/build'', filepath_Join [CacheDir opts, hash]])
                  (build_ropts opts)]
             @ (case r3 of None \<Rightarrow> [] | Some err \<Rightarrow> [SendEv ''ignoring build cache''])
             @ [RunEv (Docker [''rm'', hash]) (build_ropts opts)]
             @ (case r4 of None \<Rightarrow> [] | Some err \<Rightarrow> [SendEv (''cache error: '' @ error_Error err)])"
    using t1 t2 t3 t4 by (cases r1; cases r3; cases r4) simp_all
qed

section \<open>C1: services with equal content hashes\<close>

text \<open>
  C1, as stated: for any two services of the build list with equal content hashes, the
  first of the two is built and the second receives a tag-only operation whose source is
  the destination tag of the first of the two.

  This fails for three services \<open>a\<close>, \<open>b\<close>, \<open>c\<close> with one hash, at the pair \<open>b\<close>, \<open>c\<close>:
  \<open>b\<close> is not built, and the tag operation for \<open>c\<close> has the tag of \<open>a\<close> as its source.
  The run below issues one build and two tag operations, both from \<open>app/a\<close>.
\<close>

theorem same_hash_pair_counterexample:
  "hash_of (E_ok abc) (svc ''b'' []) = hash_of (E_ok abc) (svc ''c'' []) \<and>
   (case Build (E_ok abc) 0 ''/app'' ''app'' opts_plain (world0 (app_disk ''FROM x'')) of
      Some (Value None, w) \<Rightarrow> docker_cmds (trace w)
    | _ \<Rightarrow> []) =
     [[''build'', ''-f'', ''/app/Dockerfile'', ''-t'', ''app/a'', ''/app''],
      [''tag'', ''app/a'', ''app/b''],
      [''tag'', ''app/a'', ''app/c'']] \<and>
   [''tag'', ''app/b'', ''app/c''] \<notin>
     set (case Build (E_ok abc) 0 ''/app'' ''app'' opts_plain (world0 (app_disk ''FROM x'')) of
            Some (Value None, w) \<Rightarrow> docker_cmds (trace w)
          | _ \<Rightarrow> [])"
  by code_simp

text \<open>
  C1, amended: in a run whose loop over the build list completes, a service whose hash
  no earlier service of the list has is built, with exactly one build command; a service
  whose hash an earlier service has receives, instead of a build, exactly one command, the
  tag-only operation whose source is the destination tag of the first service of the list
  with that hash and whose destination is its own destination tag.

  Below, \<open>xs\<close> are the services before \<open>service\<close> in the build list, \<open>w1\<close> is the world
  when the loop reaches \<open>service\<close> and \<open>wa\<close> the world after its turn.
\<close>

theorem memo_hit_tags_first_build:
  assumes "Build_builds E n dir appName opts (xs @ service # ys) Map.empty w = Some (Value None, buildCache2, w2)"
  shows "\<exists>buildCache1 w1 buildCacheA wa.
      Build_builds E n dir appName opts xs Map.empty w = Some (Value None, buildCache1, w1) \<and>
      build_service E n dir appName opts service buildCache1 w1 = Some (Value None, buildCacheA, wa) \<and>
      (case first_with E (hash_of E service) xs of
         Some x \<Rightarrow>
           trace wa = trace w1 @ [RunEv (Docker [''tag'', Tag E x appName, Tag E service appName]) (tag_ropts opts)]
       | None \<Rightarrow>
           (\<exists>evs. trace wa = trace w1 @ evs \<and> length (filter is_build evs) = 1))"
proof -
  from Build_builds_append [OF assms] obtain bc1 w1 where
    p: "Build_builds E n dir appName opts xs Map.empty w = Some (Value None, bc1, w1)"
    and q: "Build_builds E n dir appName opts (service # ys) bc1 w1 = Some (Value None, buildCache2, w2)"
    by blast
  from q obtain bca wa where
    s: "build_service E n dir appName opts service bc1 w1 = Some (Value None, bca, wa)"
    by (auto split: option.splits prod.splits result.splits)
  have memo: "bc1 (hash_of E service) = map_option (\<lambda>x. Tag E x appName) (first_with E (hash_of E service) xs)"
    using Build_builds_memo [OF p, of "hash_of E service"] by simp
  have "case first_with E (hash_of E service) xs of
         Some x \<Rightarrow>
           trace wa = trace w1 @ [RunEv (Docker [''tag'', Tag E x appName, Tag E service appName]) (tag_ropts opts)]
       | None \<Rightarrow>
           (\<exists>evs. trace wa = trace w1 @ evs \<and> length (filter is_build evs) = 1)"
  proof (cases "first_with E (hash_of E service) xs")
    case None
    with memo have "bc1 (hash_of E service) = None" by simp
    from build_service_miss_ok [OF this s] None show ?thesis by simp
  next
    case (Some x)
    with memo have "bc1 (hash_of E service) = Some (Tag E x appName)" by simp
    from build_service_hit_ok [OF this s] Some show ?thesis by simp
  qed
  with p s show ?thesis by blast
qed

theorem memo_hit_tags_first_build_witness:
  "(\<exists>buildCache2 w2.
      Build_builds (E_ok abc) 0 ''/app'' ''app'' opts_plain ([svc ''a'' []] @ svc ''b'' [] # [svc ''c'' []])
        Map.empty (world0 (app_disk ''FROM x'')) = Some (Value None, buildCache2, w2)) \<and>
   (\<exists>buildCache1 w1 buildCacheA wa.
      Build_builds (E_ok abc) 0 ''/app'' ''app'' opts_plain [svc ''a'' []] Map.empty
        (world0 (app_disk ''FROM x'')) = Some (Value None, buildCache1, w1) \<and>
      build_service (E_ok abc) 0 ''/app'' ''app'' opts_plain (svc ''b'' []) buildCache1 w1
        = Some (Value None, buildCacheA, wa) \<and>
      trace wa = trace w1 @ [RunEv (Docker [''tag'', ''app/a'', ''app/b'']) (tag_ropts opts_plain)])"
proof -
  have "case Build_builds (E_ok abc) 0 ''/app'' ''app'' opts_plain
               ([svc ''a'' []] @ svc ''b'' [] # [svc ''c'' []]) Map.empty (world0 (app_disk ''FROM x'')) of
          Some (Value None, bc, w) \<Rightarrow> True
        | _ \<Rightarrow> False"
    by code_simp
  then have run: "\<exists>buildCache2 w2.
      Build_builds (E_ok abc) 0 ''/app'' ''app'' opts_plain ([svc ''a'' []] @ svc ''b'' [] # [svc ''c'' []])
        Map.empty (world0 (app_disk ''FROM x'')) = Some (Value None, buildCache2, w2)"
    by (rule Some_triple_ex)
  then obtain buildCache2 w2 where
    "Build_builds (E_ok abc) 0 ''/app'' ''app'' opts_plain ([svc ''a'' []] @ svc ''b'' [] # [svc ''c'' []])
        Map.empty (world0 (app_disk ''FROM x'')) = Some (Value None, buildCache2, w2)"
    by blast
  note concl = memo_hit_tags_first_build [OF this]
  have first: "first_with (E_ok abc) (hash_of (E_ok abc) (svc ''b'' [])) [svc ''a'' []] = Some (svc ''a'' [])"
    by code_simp
  have tags: "Tag (E_ok abc) (svc ''a'' []) ''app'' = ''app/a''" "Tag (E_ok abc) (svc ''b'' []) ''app'' = ''app/b''"
    by (simp_all add: E_ok_def svc_def)
  from concl run show ?thesis
    unfolding first tags option.case by blast
qed


section \<open>C2: the shape of the build command\<close>

text \<open>
  C2: for every service that is built (its hash is not in the memo, and the
  build-definition file \<open>dockerFile_of dir service\<close> was read with the declared argument
  names \<open>dba\<close>), the first thing the run does after the cache restore is to give the
  runner the command \<open>build\<close>, then \<open>--no-cache\<close> exactly when the cache flag is off, then
  one \<open>--build-arg NAME=VALUE\<close> pair for every name of the merged arguments, the names in
  increasing order, then \<open>-f\<close> and the build-definition file, \<open>-t\<close> and the destination
  tag, and the context directory. The merged arguments \<open>merged\<close> are the service's own
  build arguments, overridden by the environment's value for every declared name the
  environment has; they depend on the argument map only, not on the order of its entries.
\<close>

theorem build_command_fixed_shape:
  assumes "buildCache (hash_of E service) = None"
    and "restore_cache E n dir opts service w = Some w1"
    and "buildArgs (dockerFile_of dir service) (disk w1) = Value (Inr dba)"
  shows "\<exists>res buildCache1 w2 evs.
      build_service E n dir appName opts service buildCache w = Some (res, buildCache1, w2) \<and>
      trace w2 =
        trace w1 @
        RunEv (Docker
          ([''build''] @ (if Cache opts then [] else [''--no-cache''])
           @ concat (map (\<lambda>name. [''--build-arg'',
                                    name @ ''='' @ the (merged (Args (Service_Build service)) dba (Environment opts) name)])
                         (sorted_list_of_set (dom (merged (Args (Service_Build service)) dba (Environment opts)))))
           @ [''-f'', dockerFile_of dir service, ''-t'', Tag E service appName, context_of dir service]))
          (build_ropts opts) # evs"
proof -
  let ?cmd = "Docker (build_args_of E dir appName opts service dba)"
  obtain r wb where c: "DefaultRunner_Run E ?cmd (build_ropts opts) w1 = (r, wb)"
    by (cases "DefaultRunner_Run E ?cmd (build_ropts opts) w1")
  note t = trace_Run [OF c]
  show ?thesis
  proof (cases r)
    case (Some err)
    have "build_service E n dir appName opts service buildCache w =
        Some (Value (Some (ErrorString (''build error: '' @ error_Error err))), buildCache, wb)"
      using assms(2,3) c Some by (simp add: build_service_miss [of buildCache E service, OF assms(1)])
    with t show ?thesis unfolding build_args_of_def by blast
  next
    case None
    let ?w3 = "write_back E opts (hash_of E service) (Tag E service appName) wb"
    have s: "build_service E n dir appName opts service buildCache w =
        Some (Value None, buildCache(hash_of E service \<mapsto> Tag E service appName), ?w3)"
      using assms(2,3) c None by (simp add: build_service_miss [of buildCache E service, OF assms(1)])
    from write_back_no_build [of E opts "hash_of E service" "Tag E service appName" wb]
    obtain e2 where "trace ?w3 = trace wb @ e2" by blast
    with t have "trace ?w3 = trace w1 @ RunEv ?cmd (build_ropts opts) # e2" by simp
    with s show ?thesis unfolding build_args_of_def by blast
  qed
qed

theorem build_command_fixed_shape_witness:
  "Map.empty (hash_of (E_ok [svc_web]) svc_web) = None \<and>
   restore_cache (E_ok [svc_web]) 0 ''/app'' opts_env svc_web (world0 web_disk) = Some (world0 web_disk) \<and>
   buildArgs (dockerFile_of ''/app'' svc_web) (disk (world0 web_disk)) = Value (Inr [''TOKEN'', ''B'']) \<and>
   (\<exists>res buildCache1 w2 evs.
      build_service (E_ok [svc_web]) 0 ''/app'' ''app'' opts_env svc_web Map.empty (world0 web_disk)
        = Some (res, buildCache1, w2) \<and>
      trace w2 =
        trace (world0 web_disk) @
        RunEv (Docker
          ([''build''] @ (if Cache opts_env then [] else [''--no-cache''])
           @ concat (map (\<lambda>name. [''--build-arg'',
                                    name @ ''='' @ the (merged (Args (Service_Build svc_web)) [''TOKEN'', ''B'']
                                                       (Environment opts_env) name)])
                         (sorted_list_of_set (dom (merged (Args (Service_Build svc_web)) [''TOKEN'', ''B'']
                                                     (Environment opts_env)))))
           @ [''-f'', dockerFile_of ''/app'' svc_web, ''-t'', Tag (E_ok [svc_web]) svc_web ''app'',
              context_of ''/app'' svc_web]))
          (build_ropts opts_env) # evs) \<and>
   (case build_service (E_ok [svc_web]) 0 ''/app'' ''app'' opts_env svc_web Map.empty (world0 web_disk) of
      Some (res, buildCache1, w2) \<Rightarrow> docker_cmds (trace w2)
    | None \<Rightarrow> []) =
     [[''build'', ''--no-cache'', ''--build-arg'', ''A=2'', ''--build-arg'', ''TOKEN=secret'',
       ''--build-arg'', ''Z=1'', ''-f'', ''/app/Dockerfile'', ''-t'', ''app/web'', ''/app'']]"
proof -
  have memo: "Map.empty (hash_of (E_ok [svc_web]) svc_web) = None"
    by simp
  have restore: "restore_cache (E_ok [svc_web]) 0 ''/app'' opts_env svc_web (world0 web_disk)
                   = Some (world0 web_disk)"
    by (rule restore_cache_off) (simp add: opts_env_def opts_plain_def)
  have scan: "buildArgs (dockerFile_of ''/app'' svc_web) (disk (world0 web_disk)) = Value (Inr [''TOKEN'', ''B''])"
    by code_simp
  have cmds: "(case build_service (E_ok [svc_web]) 0 ''/app'' ''app'' opts_env svc_web Map.empty (world0 web_disk) of
      Some (res, buildCache1, w2) \<Rightarrow> docker_cmds (trace w2)
    | None \<Rightarrow> []) =
     [[''build'', ''--no-cache'', ''--build-arg'', ''A=2'', ''--build-arg'', ''TOKEN=secret'',
       ''--build-arg'', ''Z=1'', ''-f'', ''/app/Dockerfile'', ''-t'', ''app/web'', ''/app'']]"
    by code_simp
  from build_command_fixed_shape [of Map.empty "E_ok [svc_web]" svc_web 0 "''/app''" opts_env
      "world0 web_disk" "world0 web_disk" "[''TOKEN'', ''B'']" "''app''", OF memo restore scan]
    memo restore scan cmds
  show ?thesis by blast
qed


section \<open>C3: the normalized image reference\<close>

text \<open>
  C3: \<open>normalized ref\<close> is the reference with \<open>:latest\<close> appended exactly when the last of
  its pieces between slashes has no colon, so \<open>redis\<close> becomes \<open>redis:latest\<close> and
  \<open>redis:1.2\<close> stays. The plan Build makes is \<open>plan_pulls\<close>, whose keys are the normalized
  references of the services with an image. In a run of Build:
  \<^item> every local-image query (\<open>images -q\<close>) and every pull command names the normalized
    reference of a service of the manifest that has an image (\<open>pulled_image ev\<close> is the
    reference the event \<open>ev\<close> queries or pulls);
  \<^item> for every service with an image, when the loop over the builds has ended without
    an error, the loop over the plan has an entry for the service's normalized
    reference, with the service's destination tag among its tags; and when the run
    reaches that entry (the entries \<open>pre\<close> before it were done without an error), the
    next thing it does is the local-image query with the normalized reference, and, when
    the cache flag is off or the query printed nothing, the thing after that is the pull
    command with the normalized reference.

  \<^verbatim>\<open>range\<close> visits the entries of the map of pulls in an arbitrary order
  (\<open>range_order\<close>), but it visits exactly the entries of the map.
\<close>

theorem normalized_reference_used:
  assumes "runOrder E (Options_Service opts) = Inr services"
    and "set (range_order E (plan_pulls E appName services [])) = set (plan_pulls E appName services [])"
    and "Build E n dir appName opts w = Some (r, w')"
    and "service \<in> set services" and "Image service \<noteq> []"
  shows "normalized ''redis'' = ''redis:latest'' \<and> normalized ''redis:1.2'' = ''redis:1.2'' \<and>
         Build_plan E appName services [] [] =
           Value (plan_pulls E appName services [], filter (\<lambda>service. Image service = []) services) \<and>
         fst ` set (plan_pulls E appName services []) =
           normalized ` Image ` {service \<in> set services. Image service \<noteq> []} \<and>
         (\<exists>evs. trace w' = trace w @ evs \<and>
           list_all (images_among (normalized ` Image ` {service \<in> set services. Image service \<noteq> []})) evs) \<and>
         (\<forall>bc w1.
            Build_builds E n dir appName opts (filter (\<lambda>service. Image service = []) services) Map.empty w
              = Some (Value None, bc, w1) \<longrightarrow>
            (\<exists>tags pre post.
               range_order E (plan_pulls E appName services []) = pre @ (normalized (Image service), tags) # post \<and>
               Tag E service appName \<in> set tags \<and>
               (\<forall>wp. Build_pulls E opts pre w1 = (None, wp) \<longrightarrow>
                  (\<exists>q wq rest.
                     DefaultRunner_CombinedOutput E (Docker [''images'', ''-q'', normalized (Image service)]) wp
                       = (q, wq) \<and>
                     trace w' = trace wp @ OutputEv (Docker [''images'', ''-q'', normalized (Image service)]) # rest \<and>
                     (\<forall>output. q = Inr output \<and> (\<not> Cache opts \<or> output = []) \<longrightarrow>
                        (\<exists>rest'. rest = RunEv (Docker [''pull'', normalized (Image service)]) (tag_ropts opts)
                                         # rest'))))))"
proof -
  let ?S = "normalized ` Image ` {service \<in> set services. Image service \<noteq> []}"
  let ?pulls = "plan_pulls E appName services []"
  let ?builds = "filter (\<lambda>service. Image service = []) services"
  let ?img = "normalized (Image service)"
  have ex: "normalized ''redis'' = ''redis:latest''" "normalized ''redis:1.2'' = ''redis:1.2''"
    by (simp_all add: normalized_def)
  from assms(1,3) obtain rb bc wb where
    b: "Build_builds E n dir appName opts ?builds Map.empty w = Some (rb, bc, wb)"
    by (auto simp: Build_def Build_plan_value split: option.splits)
  from Build_builds_image_free [OF b] obtain e1 where
    e1: "trace wb = trace w @ e1" "list_all (images_among ?S) e1"
    by (auto simp: list_all_iff images_among_free)
  have safe: "\<exists>evs. trace w' = trace w @ evs \<and> list_all (images_among ?S) evs"
  proof (cases "rb = Value None")
    case False
    with assms(1,3) b have "w' = wb"
      by (auto simp: Build_def Build_plan_value split: result.splits option.splits)
    with e1 show ?thesis by blast
  next
    case True
    with assms(1,3) b obtain rp where
      p: "Build_pulls E opts (range_order E ?pulls) wb = (rp, w')"
      by (auto simp: Build_def Build_plan_value split: prod.splits)
    have "fst ` set (range_order E ?pulls) \<subseteq> ?S"
      by (simp add: assms(2) plan_pulls_keys)
    from Build_pulls_images [OF p this] e1 show ?thesis by auto
  qed
  have live: "\<exists>tags pre post.
               range_order E ?pulls = pre @ (?img, tags) # post \<and>
               Tag E service appName \<in> set tags \<and>
               (\<forall>wp. Build_pulls E opts pre w1 = (None, wp) \<longrightarrow>
                  (\<exists>q wq rest.
                     DefaultRunner_CombinedOutput E (Docker [''images'', ''-q'', ?img]) wp = (q, wq) \<and>
                     trace w' = trace wp @ OutputEv (Docker [''images'', ''-q'', ?img]) # rest \<and>
                     (\<forall>output. q = Inr output \<and> (\<not> Cache opts \<or> output = []) \<longrightarrow>
                        (\<exists>rest'. rest = RunEv (Docker [''pull'', ?img]) (tag_ropts opts) # rest'))))"
    if ok: "Build_builds E n dir appName opts ?builds Map.empty w = Some (Value None, bc1, w1)" for bc1 w1
  proof -
    let ?tags = "registered_tags E appName services ?img"
    from plan_pulls_has_entry [OF assms(4,5)] assms(2)
    have "(?img, ?tags) \<in> set (range_order E ?pulls)" by simp
    then obtain pre post where split: "range_order E ?pulls = pre @ (?img, ?tags) # post"
      by (auto dest: split_list)
    from assms(4,5) have mem: "Tag E service appName \<in> set ?tags"
      by (auto simp: registered_tags_def)
    have at: "\<exists>q wq rest.
                DefaultRunner_CombinedOutput E (Docker [''images'', ''-q'', ?img]) wp = (q, wq) \<and>
                trace w' = trace wp @ OutputEv (Docker [''images'', ''-q'', ?img]) # rest \<and>
                (\<forall>output. q = Inr output \<and> (\<not> Cache opts \<or> output = []) \<longrightarrow>
                   (\<exists>rest'. rest = RunEv (Docker [''pull'', ?img]) (tag_ropts opts) # rest'))"
      if p: "Build_pulls E opts pre w1 = (None, wp)" for wp
    proof -
      from Build_after_builds [OF assms(1) ok] assms(3) obtain rp where
        "Build_pulls E opts (pre @ (?img, ?tags) # post) w1 = (rp, w')"
        by (auto simp: split split: prod.splits)
      then have "Build_pulls E opts ((?img, ?tags) # post) wp = (rp, w')"
        by (simp add: Build_pulls_append p)
      then show ?thesis by (rule Build_pulls_first)
    qed
    have at': "\<forall>wp. Build_pulls E opts pre w1 = (None, wp) \<longrightarrow>
                  (\<exists>q wq rest.
                     DefaultRunner_CombinedOutput E (Docker [''images'', ''-q'', ?img]) wp = (q, wq) \<and>
                     trace w' = trace wp @ OutputEv (Docker [''images'', ''-q'', ?img]) # rest \<and>
                     (\<forall>output. q = Inr output \<and> (\<not> Cache opts \<or> output = []) \<longrightarrow>
                        (\<exists>rest'. rest = RunEv (Docker [''pull'', ?img]) (tag_ropts opts) # rest')))"
      by (intro allI impI) (rule at)
    show ?thesis
      by (rule exI [of _ ?tags], rule exI [of _ pre], rule exI [of _ post])
         (rule conjI [OF split], rule conjI [OF mem at'])
  qed
  have plan: "Build_plan E appName services [] [] = Value (?pulls, ?builds)"
    by (simp add: Build_plan_value)
  have keys: "fst ` set ?pulls = ?S"
    by (simp add: plan_pulls_keys)
  have live': "\<forall>bc w1.
            Build_builds E n dir appName opts ?builds Map.empty w = Some (Value None, bc, w1) \<longrightarrow>
            (\<exists>tags pre post.
               range_order E ?pulls = pre @ (?img, tags) # post \<and>
               Tag E service appName \<in> set tags \<and>
               (\<forall>wp. Build_pulls E opts pre w1 = (None, wp) \<longrightarrow>
                  (\<exists>q wq rest.
                     DefaultRunner_CombinedOutput E (Docker [''images'', ''-q'', ?img]) wp = (q, wq) \<and>
                     trace w' = trace wp @ OutputEv (Docker [''images'', ''-q'', ?img]) # rest \<and>
                     (\<forall>output. q = Inr output \<and> (\<not> Cache opts \<or> output = []) \<longrightarrow>
                        (\<exists>rest'. rest = RunEv (Docker [''pull'', ?img]) (tag_ropts opts) # rest')))))"
    by (intro allI impI) (rule live)
  show ?thesis
    by (rule conjI [OF ex(1)], rule conjI [OF ex(2)], rule conjI [OF plan], rule conjI [OF keys])
       (rule conjI [OF safe live'])
qed

theorem normalized_reference_used_witness:
  "runOrder (E_absent redis3) (Options_Service opts_plain) = Inr redis3 \<and>
   set (range_order (E_absent redis3) (plan_pulls (E_absent redis3) ''app'' redis3 []))
     = set (plan_pulls (E_absent redis3) ''app'' redis3 []) \<and>
   svc ''r3'' ''registry:5000/redis'' \<in> set redis3 \<and>
   Image (svc ''r3'' ''registry:5000/redis'') \<noteq> [] \<and>
   (case Build (E_absent redis3) 0 ''/app'' ''app'' opts_plain (world0 (app_disk ''FROM x'')) of
      Some (r, w) \<Rightarrow> (r, docker_cmds (trace w))
    | None \<Rightarrow> (Panic [], []))
   = (Value None,
      [[''images'', ''-q'', ''redis:latest''], [''pull'', ''redis:latest''],
       [''tag'', ''redis:latest'', ''app/r1''],
       [''images'', ''-q'', ''redis:1.2''], [''pull'', ''redis:1.2''],
       [''tag'', ''redis:1.2'', ''app/r2''],
       [''images'', ''-q'', ''registry:5000/redis:latest''], [''pull'', ''registry:5000/redis:latest''],
       [''tag'', ''registry:5000/redis:latest'', ''app/r3'']]) \<and>
   normalized (Image (svc ''r3'' ''registry:5000/redis'')) = ''registry:5000/redis:latest'' \<and>
   (\<exists>r w' wp wq rest.
      Build (E_absent redis3) 0 ''/app'' ''app'' opts_plain (world0 (app_disk ''FROM x'')) = Some (r, w') \<and>
      Build_pulls (E_absent redis3) opts_plain
          [(''redis:latest'', [''app/r1'']), (''redis:1.2'', [''app/r2''])] (world0 (app_disk ''FROM x''))
        = (None, wp) \<and>
      DefaultRunner_CombinedOutput (E_absent redis3)
          (Docker [''images'', ''-q'', ''registry:5000/redis:latest'']) wp = (Inr [], wq) \<and>
      trace w' = trace wp @ OutputEv (Docker [''images'', ''-q'', ''registry:5000/redis:latest''])
                 # RunEv (Docker [''pull'', ''registry:5000/redis:latest'']) (tag_ropts opts_plain) # rest)"
proof -
  let ?E = "E_absent redis3"
  let ?w = "world0 (app_disk ''FROM x'')"
  let ?s = "svc ''r3'' ''registry:5000/redis''"
  let ?i = "''registry:5000/redis:latest''"
  have order: "runOrder ?E (Options_Service opts_plain) = Inr redis3"
    by (simp add: E_absent_def E_ok_def)
  have visit: "set (range_order ?E (plan_pulls ?E ''app'' redis3 [])) = set (plan_pulls ?E ''app'' redis3 [])"
    by (simp add: E_absent_def E_ok_def)
  have mem: "?s \<in> set redis3"
    by (simp add: redis3_def)
  have img: "Image ?s \<noteq> []"
    by (simp add: svc_def)
  have run: "(case Build ?E 0 ''/app'' ''app'' opts_plain ?w of
      Some (r, w) \<Rightarrow> (r, docker_cmds (trace w))
    | None \<Rightarrow> (Panic [], []))
   = (Value None,
      [[''images'', ''-q'', ''redis:latest''], [''pull'', ''redis:latest''],
       [''tag'', ''redis:latest'', ''app/r1''],
       [''images'', ''-q'', ''redis:1.2''], [''pull'', ''redis:1.2''],
       [''tag'', ''redis:1.2'', ''app/r2''],
       [''images'', ''-q'', ?i], [''pull'', ?i], [''tag'', ?i, ''app/r3'']])"
    by code_simp
  then obtain r w' where b: "Build ?E 0 ''/app'' ''app'' opts_plain ?w = Some (r, w')"
    by (cases "Build ?E 0 ''/app'' ''app'' opts_plain ?w") auto
  have norm: "normalized (Image ?s) = ?i"
    by code_simp
  have builds: "Build_builds ?E 0 ''/app'' ''app'' opts_plain
       (filter (\<lambda>service. Image service = []) redis3) Map.empty ?w = Some (Value None, Map.empty, ?w)"
    by (simp add: redis3_def svc_def)
  have plan: "range_order ?E (plan_pulls ?E ''app'' redis3 []) =
      [(''redis:latest'', [''app/r1'']), (''redis:1.2'', [''app/r2'']), (?i, [''app/r3''])]"
    by code_simp
  note used = normalized_reference_used [OF order visit b mem img]
  from used have "\<forall>bc w1.
            Build_builds ?E 0 ''/app'' ''app'' opts_plain (filter (\<lambda>service. Image service = []) redis3) Map.empty ?w
              = Some (Value None, bc, w1) \<longrightarrow>
            (\<exists>tags pre post.
               range_order ?E (plan_pulls ?E ''app'' redis3 []) = pre @ (normalized (Image ?s), tags) # post \<and>
               Tag ?E ?s ''app'' \<in> set tags \<and>
               (\<forall>wp. Build_pulls ?E opts_plain pre w1 = (None, wp) \<longrightarrow>
                  (\<exists>q wq rest.
                     DefaultRunner_CombinedOutput ?E (Docker [''images'', ''-q'', normalized (Image ?s)]) wp
                       = (q, wq) \<and>
                     trace w' = trace wp @ OutputEv (Docker [''images'', ''-q'', normalized (Image ?s)]) # rest \<and>
                     (\<forall>output. q = Inr output \<and> (\<not> Cache opts_plain \<or> output = []) \<longrightarrow>
                        (\<exists>rest'. rest = RunEv (Docker [''pull'', normalized (Image ?s)]) (tag_ropts opts_plain)
                                         # rest')))))"
    by (elim conjE)
  from this [rule_format, OF builds] obtain tags pre post where
    split: "range_order ?E (plan_pulls ?E ''app'' redis3 []) = pre @ (?i, tags) # post"
    and at: "\<And>wp. Build_pulls ?E opts_plain pre ?w = (None, wp) \<Longrightarrow>
                  (\<exists>q wq rest.
                     DefaultRunner_CombinedOutput ?E (Docker [''images'', ''-q'', ?i]) wp = (q, wq) \<and>
                     trace w' = trace wp @ OutputEv (Docker [''images'', ''-q'', ?i]) # rest \<and>
                     (\<forall>output. q = Inr output \<and> (\<not> Cache opts_plain \<or> output = []) \<longrightarrow>
                        (\<exists>rest'. rest = RunEv (Docker [''pull'', ?i]) (tag_ropts opts_plain) # rest')))"
    unfolding norm by blast
  from split have pre: "pre = [(''redis:latest'', [''app/r1'']), (''redis:1.2'', [''app/r2''])]"
    unfolding plan by (auto simp: Cons_eq_append_conv)
  have "fst (Build_pulls ?E opts_plain pre ?w) = None"
    unfolding pre by code_simp
  then obtain wp where pw: "Build_pulls ?E opts_plain pre ?w = (None, wp)"
    by (cases "Build_pulls ?E opts_plain pre ?w") simp
  from at [OF pw] obtain q wq rest where
    c: "DefaultRunner_CombinedOutput ?E (Docker [''images'', ''-q'', ?i]) wp = (q, wq)"
    and t: "trace w' = trace wp @ OutputEv (Docker [''images'', ''-q'', ?i]) # rest"
    and pl: "\<forall>output. q = Inr output \<and> (\<not> Cache opts_plain \<or> output = []) \<longrightarrow>
                        (\<exists>rest'. rest = RunEv (Docker [''pull'', ?i]) (tag_ropts opts_plain) # rest')"
    by (elim exE conjE)
  have "fst (DefaultRunner_CombinedOutput ?E (Docker [''images'', ''-q'', ?i]) wp) = Inr []"
    by (simp add: DefaultRunner_CombinedOutput_def E_absent_def E_ok_def split: prod.splits)
  with c have q: "q = Inr []" by simp
  with pl obtain rest' where rest: "rest = RunEv (Docker [''pull'', ?i]) (tag_ropts opts_plain) # rest'"
    by blast
  have last: "\<exists>r w' wp wq rest.
      Build ?E 0 ''/app'' ''app'' opts_plain ?w = Some (r, w') \<and>
      Build_pulls ?E opts_plain
          [(''redis:latest'', [''app/r1'']), (''redis:1.2'', [''app/r2''])] ?w = (None, wp) \<and>
      DefaultRunner_CombinedOutput ?E (Docker [''images'', ''-q'', ?i]) wp = (Inr [], wq) \<and>
      trace w' = trace wp @ OutputEv (Docker [''images'', ''-q'', ?i])
                 # RunEv (Docker [''pull'', ?i]) (tag_ropts opts_plain) # rest"
    using b pw [unfolded pre] c [unfolded q] t [unfolded rest] by blast
  show ?thesis
    by (intro conjI; fact)
qed

section \<open>C4: the images to pull\<close>

text \<open>
  C4, as stated: for every image reference in the plan the local-image query is always
  executed.

  It is not when the run has ended before: below every pull fails, the plan has three
  references, and the run ends with the ``build error'' of the first pull; the second and
  the third reference are never queried.
\<close>

theorem unreached_reference_counterexample:
  "plan_pulls (E_pull_fails redis3) ''app'' redis3 [] =
     [(''redis:latest'', [''app/r1'']), (''redis:1.2'', [''app/r2'']),
      (''registry:5000/redis:latest'', [''app/r3''])] \<and>
   range_order (E_pull_fails redis3) (plan_pulls (E_pull_fails redis3) ''app'' redis3 []) =
     plan_pulls (E_pull_fails redis3) ''app'' redis3 [] \<and>
   (case Build (E_pull_fails redis3) 0 ''/app'' ''app'' opts_plain (world0 (app_disk ''FROM x'')) of
      Some (r, w) \<Rightarrow> (r, docker_cmds (trace w))
    | None \<Rightarrow> (Panic [], []))
   = (Value (Some (ErrorString ''build error: exit status 1'')),
      [[''images'', ''-q'', ''redis:latest''], [''pull'', ''redis:latest'']])"
  by code_simp

text \<open>
  C4, amended: for every distinct normalized external image reference in the plan that
  the run reaches (the loop over the builds has ended without an error, and so has the
  visit of every reference visited before this one; otherwise the run has ended with that
  error): the local-image query is executed and its failure aborts the run; the pull
  command is issued if and only if the cache-enabled flag is false or the query output is
  empty, and a failed pull aborts the run; then, regardless of whether a pull occurred,
  exactly one tag operation is issued for each destination tag registered for that
  reference, in the plan's recorded tag-list order, each tag failure aborting the run.

  An entry \<open>(img, tags)\<close> of the plan has the tags registered for \<open>img\<close>
  (\<open>registered_tags\<close>) and a place in the order of the visit, after the entries \<open>pre\<close> and
  before the entries \<open>post\<close>. When the visit of \<open>pre\<close> returns an error, Build returns it.
  Otherwise the query is given to the runner; when it fails, Build returns its error.
  Otherwise the commands \<open>pull_cmds\<close> (the pull, present exactly when the cache flag is off
  or the query printed nothing, then one tag operation per tag, in the order of the tags)
  are given to the runner one after the other (\<open>run_all\<close>): when one of them fails, it is
  the last command issued and Build returns its ``build error''; when none fails, the
  trace is the query followed by exactly these commands, and Build goes on with \<open>post\<close>.
\<close>

theorem plan_entry_query_pull_tags:
  assumes "runOrder E (Options_Service opts) = Inr services"
    and "Build_builds E n dir appName opts (filter (\<lambda>service. Image service = []) services) Map.empty w
           = Some (Value None, bc, w1)"
    and "set (range_order E (plan_pulls E appName services [])) = set (plan_pulls E appName services [])"
    and "(img, tags) \<in> set (plan_pulls E appName services [])"
  shows "tags = registered_tags E appName services img \<and>
     (\<exists>pre post.
        range_order E (plan_pulls E appName services []) = pre @ (img, tags) # post \<and>
        (case Build_pulls E opts pre w1 of
           (Some err, wp) \<Rightarrow> Build E n dir appName opts w = Some (Value (Some err), wp)
         | (None, wp) \<Rightarrow>
             (case DefaultRunner_CombinedOutput E (Docker [''images'', ''-q'', img]) wp of
                (Inl err, wq) \<Rightarrow>
                  Build E n dir appName opts w = Some (Value (Some err), wq) \<and>
                  trace wq = trace wp @ [OutputEv (Docker [''images'', ''-q'', img])]
              | (Inr output, wq) \<Rightarrow>
                  (case run_all E opts (pull_cmds opts img tags output) wq of
                     (Some err, w') \<Rightarrow>
                       Build E n dir appName opts w = Some (Value (Some err), w') \<and>
                       (\<exists>k<length (pull_cmds opts img tags output). \<exists>wk e.
                          run_all E opts (take k (pull_cmds opts img tags output)) wq = (None, wk) \<and>
                          DefaultRunner_Run E (pull_cmds opts img tags output ! k) (tag_ropts opts) wk
                            = (Some e, w') \<and>
                          err = ErrorString (''build error: '' @ error_Error e) \<and>
                          trace w' = trace wp @ OutputEv (Docker [''images'', ''-q'', img])
                                     # map (\<lambda>cmd. RunEv cmd (tag_ropts opts))
                                           (take (Suc k) (pull_cmds opts img tags output)))
                   | (None, w') \<Rightarrow>
                       trace w' = trace wp @ OutputEv (Docker [''images'', ''-q'', img])
                                  # map (\<lambda>cmd. RunEv cmd (tag_ropts opts)) (pull_cmds opts img tags output) \<and>
                       Build E n dir appName opts w =
                         (case Build_pulls E opts post w' of (r, w2) \<Rightarrow> Some (Value r, w2))))))"
proof -
  have tags: "tags = registered_tags E appName services img"
    by (rule plan_pulls_entry [OF assms(4)])
  from assms(3,4) have "(img, tags) \<in> set (range_order E (plan_pulls E appName services []))"
    by simp
  then obtain pre post where
    split: "range_order E (plan_pulls E appName services []) = pre @ (img, tags) # post"
    by (auto dest: split_list)
  note B = Build_at_entry [OF assms(1,2) split]
  obtain rp wp where p: "Build_pulls E opts pre w1 = (rp, wp)"
    by (cases "Build_pulls E opts pre w1")
  obtain q wq where c: "DefaultRunner_CombinedOutput E (Docker [''images'', ''-q'', img]) wp = (q, wq)"
    by (cases "DefaultRunner_CombinedOutput E (Docker [''images'', ''-q'', img]) wp")
  note t = trace_CombinedOutput [OF c]
  have visit: "case Build_pulls E opts pre w1 of
           (Some err, wp) \<Rightarrow> Build E n dir appName opts w = Some (Value (Some err), wp)
         | (None, wp) \<Rightarrow>
             (case DefaultRunner_CombinedOutput E (Docker [''images'', ''-q'', img]) wp of
                (Inl err, wq) \<Rightarrow>
                  Build E n dir appName opts w = Some (Value (Some err), wq) \<and>
                  trace wq = trace wp @ [OutputEv (Docker [''images'', ''-q'', img])]
              | (Inr output, wq) \<Rightarrow>
                  (case run_all E opts (pull_cmds opts img tags output) wq of
                     (Some err, w') \<Rightarrow>
                       Build E n dir appName opts w = Some (Value (Some err), w') \<and>
                       (\<exists>k<length (pull_cmds opts img tags output). \<exists>wk e.
                          run_all E opts (take k (pull_cmds opts img tags output)) wq = (None, wk) \<and>
                          DefaultRunner_Run E (pull_cmds opts img tags output ! k) (tag_ropts opts) wk
                            = (Some e, w') \<and>
                          err = ErrorString (''build error: '' @ error_Error e) \<and>
                          trace w' = trace wp @ OutputEv (Docker [''images'', ''-q'', img])
                                     # map (\<lambda>cmd. RunEv cmd (tag_ropts opts))
                                           (take (Suc k) (pull_cmds opts img tags output)))
                   | (None, w') \<Rightarrow>
                       trace w' = trace wp @ OutputEv (Docker [''images'', ''-q'', img])
                                  # map (\<lambda>cmd. RunEv cmd (tag_ropts opts)) (pull_cmds opts img tags output) \<and>
                       Build E n dir appName opts w =
                         (case Build_pulls E opts post w' of (r, w2) \<Rightarrow> Some (Value r, w2))))"
  proof (cases rp)
    case (Some err)
    with p B show ?thesis by simp
  next
    case None
    show ?thesis
    proof (cases q)
      case (Inl err)
      with None p c t B show ?thesis by (simp add: pull_image_run_all)
    next
      case (Inr outp)
      obtain rr w' where ra: "run_all E opts (pull_cmds opts img tags outp) wq = (rr, w')"
        by (cases "run_all E opts (pull_cmds opts img tags outp) wq")
      show ?thesis
      proof (cases rr)
        case None' : None
        from run_all_ok [OF ra [unfolded None']] t None p c Inr ra None' B
        show ?thesis by (simp add: pull_image_run_all)
      next
        case (Some err)
        from run_all_fail [OF ra [unfolded Some]] t
        have "\<exists>k<length (pull_cmds opts img tags outp). \<exists>wk e.
                          run_all E opts (take k (pull_cmds opts img tags outp)) wq = (None, wk) \<and>
                          DefaultRunner_Run E (pull_cmds opts img tags outp ! k) (tag_ropts opts) wk
                            = (Some e, w') \<and>
                          err = ErrorString (''build error: '' @ error_Error e) \<and>
                          trace w' = trace wp @ OutputEv (Docker [''images'', ''-q'', img])
                                     # map (\<lambda>cmd. RunEv cmd (tag_ropts opts))
                                           (take (Suc k) (pull_cmds opts img tags outp))"
          by simp
        with None p c Inr ra Some B show ?thesis by (simp add: pull_image_run_all)
      qed
    qed
  qed
  show ?thesis
    by (rule conjI [OF tags], rule exI [of _ pre], rule exI [of _ post]) (rule conjI [OF split visit])
qed

theorem plan_entry_query_pull_tags_witness:
  "runOrder (E_absent redis_twice) (Options_Service opts_plain) = Inr redis_twice \<and>
   Build_builds (E_absent redis_twice) 0 ''/app'' ''app'' opts_plain
       (filter (\<lambda>service. Image service = []) redis_twice) Map.empty (world0 (app_disk ''FROM x''))
     = Some (Value None, Map.empty, world0 (app_disk ''FROM x'')) \<and>
   set (range_order (E_absent redis_twice) (plan_pulls (E_absent redis_twice) ''app'' redis_twice []))
     = set (plan_pulls (E_absent redis_twice) ''app'' redis_twice []) \<and>
   (''redis:latest'', [''app/r1'', ''app/r4''])
     \<in> set (plan_pulls (E_absent redis_twice) ''app'' redis_twice []) \<and>
   [''app/r1'', ''app/r4''] = registered_tags (E_absent redis_twice) ''app'' redis_twice ''redis:latest'' \<and>
   (\<exists>pre post.
      range_order (E_absent redis_twice) (plan_pulls (E_absent redis_twice) ''app'' redis_twice [])
        = pre @ (''redis:latest'', [''app/r1'', ''app/r4'']) # post) \<and>
   (case Build (E_absent redis_twice) 0 ''/app'' ''app'' opts_plain (world0 (app_disk ''FROM x'')) of
      Some (r, w) \<Rightarrow> (r, docker_cmds (trace w))
    | None \<Rightarrow> (Panic [], []))
   = (Value None,
      [[''images'', ''-q'', ''redis:1.2''], [''pull'', ''redis:1.2''], [''tag'', ''redis:1.2'', ''app/r2''],
       [''images'', ''-q'', ''redis:latest''], [''pull'', ''redis:latest''],
       [''tag'', ''redis:latest'', ''app/r1''], [''tag'', ''redis:latest'', ''app/r4'']])"
proof -
  let ?E = "E_absent redis_twice"
  let ?w = "world0 (app_disk ''FROM x'')"
  have order: "runOrder ?E (Options_Service opts_plain) = Inr redis_twice"
    by (simp add: E_absent_def E_ok_def)
  have builds: "Build_builds ?E 0 ''/app'' ''app'' opts_plain
       (filter (\<lambda>service. Image service = []) redis_twice) Map.empty ?w = Some (Value None, Map.empty, ?w)"
    by (simp add: redis_twice_def svc_def)
  have visit: "set (range_order ?E (plan_pulls ?E ''app'' redis_twice []))
     = set (plan_pulls ?E ''app'' redis_twice [])"
    by (simp add: E_absent_def E_ok_def)
  have entry: "(''redis:latest'', [''app/r1'', ''app/r4'']) \<in> set (plan_pulls ?E ''app'' redis_twice [])"
    by code_simp
  have run: "(case Build ?E 0 ''/app'' ''app'' opts_plain ?w of
      Some (r, w) \<Rightarrow> (r, docker_cmds (trace w))
    | None \<Rightarrow> (Panic [], []))
   = (Value None,
      [[''images'', ''-q'', ''redis:1.2''], [''pull'', ''redis:1.2''], [''tag'', ''redis:1.2'', ''app/r2''],
       [''images'', ''-q'', ''redis:latest''], [''pull'', ''redis:latest''],
       [''tag'', ''redis:latest'', ''app/r1''], [''tag'', ''redis:latest'', ''app/r4'']])"
    by code_simp
  note at = plan_entry_query_pull_tags [OF order builds visit entry]
  from at have tags: "[''app/r1'', ''app/r4''] = registered_tags ?E ''app'' redis_twice ''redis:latest''"
    by (rule conjunct1)
  from at have pos: "\<exists>pre post. range_order ?E (plan_pulls ?E ''app'' redis_twice [])
        = pre @ (''redis:latest'', [''app/r1'', ''app/r4'']) # post"
    by blast
  show ?thesis
    by (intro conjI; fact)
qed

section \<open>C5: a failed copy from the cache store\<close>

text \<open>
  C5, as stated: when the cache-store entry of the service's hash exists, a failure of the
  copy into the local staging directory for a reason other than an absent source ends the
  run with an error.

  It does not. Below the cache-store entry \<open>/cache/h\<close> is a regular file, so \<open>copyDir\<close>
  fails with ``source is not a directory''; the run sends the line to the stream, goes on
  to build the service and to write the cache back, and returns \<^verbatim>\<open>nil\<close>.
\<close>

theorem restore_copy_failure_counterexample:
  "copyDir 1 ''/cache/h'' ''/app/.cache/build'' store_disk
     = Some (Some (ErrorString ''source is not a directory''), store_disk) \<and>
   (case Build (E_ok [svc ''a'' []]) 1 ''/app'' ''app'' opts_store (world0 store_disk) of
      Some (r, w) \<Rightarrow> (r, sent_lines (trace w), docker_cmds (trace w))
    | None \<Rightarrow> (Panic [], [], []))
   = (Value None, [''cache error: source is not a directory''],
      [[''build'', ''-f'', ''/app/Dockerfile'', ''-t'', ''app/a'', ''/app''],
       [''create'', ''--name'', ''h'', ''app/a''],
       [''cp'', ''h:/var/cache/build'', ''/cache/h''],
       [''rm'', ''h'']])"
  by code_simp

text \<open>
  C5, amended: when a cache-store root is configured and the cache-store entry of the
  service's hash exists, a failure of the copy into the local staging directory whose
  message does not say ``no such file or directory'' is not fatal: the line
  ``cache error: ...'' is sent to the stream and the run goes on, to read the
  build-definition file and to run the build command, as it does after a copy that
  succeeded.

  \<open>rcd_of E opts service\<close> is the cache-store entry, \<open>lcd_of dir\<close> the local staging
  directory, and \<open>w1\<close> the world after the restore step.
\<close>

theorem restore_copy_failure_not_fatal:
  assumes "CacheDir opts \<noteq> []"
    and "buildCache (hash_of E service) = None"
    and "os_Stat (rcd_of E opts service) (disk w) = Inr fi"
    and "copyDir n (rcd_of E opts service) (lcd_of dir) (snd (os_RemoveAll (lcd_of dir) (disk w))) = Some (Some err, d2)"
    and "\<not> strings_Contains (error_Error err) ''no such file or directory''"
    and "w1 = \<lparr>disk = d2, ext = ext w, trace = trace w @ [SendEv (''cache error: '' @ error_Error err)]\<rparr>"
  shows "restore_cache E n dir opts service w = Some w1 \<and>
         build_service E n dir appName opts service buildCache w =
           (case buildArgs (dockerFile_of dir service) (disk w1) of
              Panic msg \<Rightarrow> Some (Panic msg, buildCache, w1)
            | Value (Inl err) \<Rightarrow> Some (Value (Some err), buildCache, w1)
            | Value (Inr dba) \<Rightarrow>
                (case DefaultRunner_Run E (Docker (build_args_of E dir appName opts service dba))
                        (build_ropts opts) w1 of
                   (Some err, w2) \<Rightarrow>
                     Some (Value (Some (ErrorString (''build error: '' @ error_Error err))), buildCache, w2)
                 | (None, w2) \<Rightarrow>
                     Some (Value None, buildCache(hash_of E service \<mapsto> Tag E service appName),
                           write_back E opts (hash_of E service) (Tag E service appName) w2)))"
proof -
  have r: "restore_cache E n dir opts service w = Some w1"
    using restore_cache_copy_failed [OF assms(1,3,4,5)] assms(6) by simp
  show ?thesis
    using r by (simp add: build_service_miss [of buildCache E service, OF assms(2)])
qed

theorem restore_copy_failure_not_fatal_witness:
  "CacheDir opts_store \<noteq> [] \<and>
   Map.empty (hash_of (E_ok [svc ''a'' []]) (svc ''a'' [])) = None \<and>
   os_Stat (rcd_of (E_ok [svc ''a'' []]) opts_store (svc ''a'' [])) (disk (world0 store_disk))
     = Inr \<lparr>Name = ''h'', Mode = 0x1A4, ModTime = 0\<rparr> \<and>
   copyDir 1 (rcd_of (E_ok [svc ''a'' []]) opts_store (svc ''a'' [])) (lcd_of ''/app'')
       (snd (os_RemoveAll (lcd_of ''/app'') (disk (world0 store_disk))))
     = Some (Some (ErrorString ''source is not a directory''), store_disk) \<and>
   \<not> strings_Contains (error_Error (ErrorString ''source is not a directory'')) ''no such file or directory'' \<and>
   restore_cache (E_ok [svc ''a'' []]) 1 ''/app'' opts_store (svc ''a'' []) (world0 store_disk)
     = Some \<lparr>disk = store_disk, ext = (), trace = [SendEv ''cache error: source is not a directory'']\<rparr> \<and>
   (case build_service (E_ok [svc ''a'' []]) 1 ''/app'' ''app'' opts_store (svc ''a'' []) Map.empty
           (world0 store_disk) of
      Some (r, buildCache1, w) \<Rightarrow> (r, buildCache1 ''h'')
    | None \<Rightarrow> (Panic [], None))
   = (Value None, Some ''app/a'')"
proof -
  let ?E = "E_ok [svc ''a'' []]"
  let ?w1 = "\<lparr>disk = store_disk, ext = (), trace = [SendEv ''cache error: source is not a directory'']\<rparr> :: unit World"
  have store: "CacheDir opts_store \<noteq> []"
    by (simp add: opts_store_def)
  have memo: "Map.empty (hash_of ?E (svc ''a'' [])) = None"
    by simp
  have entry: "os_Stat (rcd_of ?E opts_store (svc ''a'' [])) (disk (world0 store_disk))
                 = Inr \<lparr>Name = ''h'', Mode = 0x1A4, ModTime = 0\<rparr>"
    by code_simp
  have copy: "copyDir 1 (rcd_of ?E opts_store (svc ''a'' [])) (lcd_of ''/app'')
                (snd (os_RemoveAll (lcd_of ''/app'') (disk (world0 store_disk))))
              = Some (Some (ErrorString ''source is not a directory''), store_disk)"
    by code_simp
  have msg: "\<not> strings_Contains (error_Error (ErrorString ''source is not a directory''))
                 ''no such file or directory''"
    by code_simp
  have w1: "?w1 = \<lparr>disk = store_disk, ext = ext (world0 store_disk),
                   trace = trace (world0 store_disk)
                     @ [SendEv (''cache error: '' @ error_Error (ErrorString ''source is not a directory''))]\<rparr>"
    by (simp add: world0_def)
  have result: "(case build_service ?E 1 ''/app'' ''app'' opts_store (svc ''a'' []) Map.empty
           (world0 store_disk) of
      Some (r, buildCache1, w) \<Rightarrow> (r, buildCache1 ''h'')
    | None \<Rightarrow> (Panic [], None))
   = (Value None, Some ''app/a'')"
    by code_simp
  from restore_copy_failure_not_fatal [of opts_store Map.empty ?E "svc ''a'' []" "world0 store_disk"
      _ 1 "''/app''" _ store_disk ?w1 "''app''", OF store memo entry copy msg w1]
    store memo entry copy msg result
  show ?thesis by blast
qed


section \<open>C6: what the directory copy refuses, and what it leaves out\<close>

text \<open>
  C6: \<open>copyDir src dst\<close> fails when \<open>src\<close> does not exist or is not a directory, and
  fails when \<open>dst\<close> exists already; each of these errors is returned before anything is
  written, so the file system, and with it the destination that was there, is what it
  was. When the copy succeeds on a tree that has symbolic links in it, the link entries
  are passed over without an error and are absent from the destination.

  \<open>stat_node fs (path_of name)\<close> is what \<^verbatim>\<open>os.Stat\<close> finds under the name, through links:
  \<open>Inl en\<close> when there is nothing to find. The theorem has five parts, for any fuel
  \<open>n\<close>:
  \<^item> a source that cannot be found: the error of \<^verbatim>\<open>os.Stat\<close>, nothing written;
  \<^item> a source that is not a directory: \<open>source is not a directory\<close>, nothing written;
  \<^item> a destination that is there: an error and nothing written, and the error is
    \<open>destination already exists\<close> when the source is a directory;
  \<^item> an entry of the source directory that is a link: the loop over the entries goes on
    with the next entry, in the same file system;
  \<^item> a copy that has succeeded, from a source directory that is not itself a link, in a
    well-formed file system (\<open>wf_fs\<close>: no name twice, every node inside a directory),
    where neither of the two directories lies inside the other: for every path \<open>rel\<close>
    below the source that was a link, there is nothing at \<open>rel\<close> below the destination
    (\<open>links_skipped\<close>).
\<close>

theorem copyDir_refusals_and_skipped_links:
  "(\<forall>en. stat_node fs (path_of src) = Inl en \<longrightarrow>
      copyDir (Suc n) src dst fs = Some (Some (PathError ''stat'' (filepath_Clean src) en), fs)) \<and>
   (\<forall>sd. stat_node fs (path_of src) = Inr sd \<and> \<not> is_dir sd \<longrightarrow>
      copyDir (Suc n) src dst fs = Some (Some (ErrorString ''source is not a directory''), fs)) \<and>
   (\<forall>dd. stat_node fs (path_of dst) = Inr dd \<longrightarrow>
      (\<exists>err. copyDir (Suc n) src dst fs = Some (Some err, fs)) \<and>
      (\<forall>sd. stat_node fs (path_of src) = Inr sd \<and> is_dir sd \<longrightarrow>
         copyDir (Suc n) src dst fs = Some (Some (ErrorString ''destination already exists''), fs))) \<and>
   (\<forall>name t m files.
      copyDir_files n src dst (fileinfo name (Symlink t m) # files) fs =
      copyDir_files n src dst files fs) \<and>
   (\<forall>fs'. copyDir n src dst fs = Some (None, fs') \<and> wf_fs fs \<and>
      disjoint (path_of src) (path_of dst) \<and> \<not> is_link (lookup fs (path_of src)) \<and>
      list_all valid_name (snd (path_of dst)) \<longrightarrow>
      links_skipped fs fs' (path_of src) (path_of dst))"
proof (intro conjI allI impI)
  fix en assume "stat_node fs (path_of src) = Inl en"
  then show "copyDir (Suc n) src dst fs = Some (Some (PathError ''stat'' (filepath_Clean src) en), fs)"
    by (simp add: os_Stat_def)
next
  fix sd assume "stat_node fs (path_of src) = Inr sd \<and> \<not> is_dir sd"
  then show "copyDir (Suc n) src dst fs = Some (Some (ErrorString ''source is not a directory''), fs)"
    by (simp add: os_Stat_def IsDir_fileinfo)
next
  fix dd assume "stat_node fs (path_of dst) = Inr dd"
  then show "\<exists>err. copyDir (Suc n) src dst fs = Some (Some err, fs)"
    by (cases "stat_node fs (path_of src)") (simp_all add: os_Stat_def IsDir_fileinfo Let_def)
next
  fix dd sd assume "stat_node fs (path_of dst) = Inr dd"
    and "stat_node fs (path_of src) = Inr sd \<and> is_dir sd"
  then show "copyDir (Suc n) src dst fs = Some (Some (ErrorString ''destination already exists''), fs)"
    by (simp add: os_Stat_def IsDir_fileinfo)
next
  fix name t m files
  have "\<not> IsDir (fileinfo name (Symlink t m))" by (simp only: IsDir_fileinfo is_dir.simps not_False_eq_True)
  moreover have "Mode (fileinfo name (Symlink t m)) AND ModeSymlink \<noteq> 0"
    by (simp only: Symlink_fileinfo is_link.simps)
  ultimately show "copyDir_files n src dst (fileinfo name (Symlink t m) # files) fs =
      copyDir_files n src dst files fs"
    by (simp add: Let_def)
next
  fix fs' assume "copyDir n src dst fs = Some (None, fs') \<and> wf_fs fs \<and>
      disjoint (path_of src) (path_of dst) \<and> \<not> is_link (lookup fs (path_of src)) \<and>
      list_all valid_name (snd (path_of dst))"
  with dir_copied_all [of n, unfolded dir_copied_def]
  show "links_skipped fs fs' (path_of src) (path_of dst)" by blast
qed

theorem copyDir_refusals_and_skipped_links_witness:
  "copyDir 1 ''/nowhere'' ''/t'' tree_disk =
     Some (Some (PathError ''stat'' ''/nowhere'' ENOENT), tree_disk) \<and>
   copyDir 1 ''/c/f'' ''/t'' tree_disk =
     Some (Some (ErrorString ''source is not a directory''), tree_disk) \<and>
   copyDir 1 ''/c'' ''/c/d'' tree_disk =
     Some (Some (ErrorString ''destination already exists''), tree_disk) \<and>
   copyDir_files 1 ''/c'' ''/t'' [fileinfo ''l'' (Symlink ''f'' 2)] tree_disk = Some (None, tree_disk) \<and>
   (\<exists>fs'. copyDir 2 ''/c'' ''/t'' tree_disk = Some (None, fs') \<and>
      is_link (lookup tree_disk (True, [''c'', ''l''])) \<and> lookup fs' (True, [''t'', ''l'']) = None \<and>
      is_link (lookup tree_disk (True, [''c'', ''d'', ''k''])) \<and>
      lookup fs' (True, [''t'', ''d'', ''k'']) = None)"
proof -
  note A = copyDir_refusals_and_skipped_links [where fs = tree_disk and src = "''/nowhere''"
      and dst = "''/t''" and n = 0, THEN conjunct1, rule_format]
  note B = copyDir_refusals_and_skipped_links [where fs = tree_disk and src = "''/c/f''"
      and dst = "''/t''" and n = 0, THEN conjunct2, THEN conjunct1, rule_format]
  note C = copyDir_refusals_and_skipped_links [where fs = tree_disk and src = "''/c''"
      and dst = "''/c/d''" and n = 0, THEN conjunct2, THEN conjunct2, THEN conjunct1, rule_format]
  note D = copyDir_refusals_and_skipped_links [where fs = tree_disk and src = "''/c''"
      and dst = "''/t''" and n = 1, THEN conjunct2, THEN conjunct2, THEN conjunct2, THEN conjunct1,
      rule_format]
  note E = copyDir_refusals_and_skipped_links [where fs = tree_disk and src = "''/c''"
      and dst = "''/t''" and n = 2, THEN conjunct2, THEN conjunct2, THEN conjunct2, THEN conjunct2,
      rule_format]
  have a0: "stat_node tree_disk (path_of ''/nowhere'') = Inl ENOENT" by code_simp
  have a1: "filepath_Clean ''/nowhere'' = ''/nowhere''" by code_simp
  have a: "copyDir 1 ''/nowhere'' ''/t'' tree_disk =
     Some (Some (PathError ''stat'' ''/nowhere'' ENOENT), tree_disk)"
    using A [OF a0] by (simp add: a1)
  have b0: "stat_node tree_disk (path_of ''/c/f'') = Inr (File ''hello'' 0x1A4 5 3)" by code_simp
  have b: "copyDir 1 ''/c/f'' ''/t'' tree_disk =
     Some (Some (ErrorString ''source is not a directory''), tree_disk)"
    using B [of "File ''hello'' 0x1A4 5 3"] b0 by simp
  have c0: "stat_node tree_disk (path_of ''/c/d'') = Inr (Dir 0x1C0 2)" by code_simp
  have c1: "stat_node tree_disk (path_of ''/c'') = Inr (Dir 0x1ED 1)" by code_simp
  have c: "copyDir 1 ''/c'' ''/c/d'' tree_disk =
     Some (Some (ErrorString ''destination already exists''), tree_disk)"
    using C [OF c0, THEN conjunct2, rule_format, of "Dir 0x1ED 1"] c1 by simp
  have d: "copyDir_files 1 ''/c'' ''/t'' [fileinfo ''l'' (Symlink ''f'' 2)] tree_disk = Some (None, tree_disk)"
    using D [of "''l''" "''f''" 2 "[]"] by simp
  let ?r = "copyDir 2 ''/c'' ''/t'' tree_disk"
  have "(case ?r of Some (None, fs') \<Rightarrow> True | _ \<Rightarrow> False)" by code_simp
  then obtain fs' where run: "?r = Some (None, fs')"
    by (auto split: option.splits prod.splits)
  have e1: "wf_fs tree_disk" by code_simp
  have e2: "disjoint (path_of ''/c'') (path_of ''/t'')" by code_simp
  have e3: "\<not> is_link (lookup tree_disk (path_of ''/c''))" by code_simp
  have e4: "list_all valid_name (snd (path_of ''/t''))" by code_simp
  have pc: "path_of ''/c'' = (True, [''c''])" by code_simp
  have pt: "path_of ''/t'' = (True, [''t''])" by code_simp
  have l1: "is_link (lookup tree_disk (True, [''c'', ''l'']))" by code_simp
  have l2: "is_link (lookup tree_disk (True, [''c'', ''d'', ''k'']))" by code_simp
  from E [of fs'] run e1 e2 e3 e4
  have "links_skipped tree_disk fs' (True, [''c'']) (True, [''t''])" by (simp add: pc pt)
  then have sk: "rel \<noteq> [] \<Longrightarrow> is_link (lookup tree_disk (sub (True, [''c'']) rel)) \<Longrightarrow>
      lookup fs' (sub (True, [''t'']) rel) = None" for rel
    unfolding links_skipped_def by blast
  from sk [of "[''l'']"] l1 have s1: "lookup fs' (True, [''t'', ''l'']) = None"
    by (simp add: sub_def)
  from sk [of "[''d'', ''k'']"] l2 have s2: "lookup fs' (True, [''t'', ''d'', ''k'']) = None"
    by (simp add: sub_def)
  from a b c d run l1 l2 s1 s2 show ?thesis by simp
qed


section \<open>C7 and C8: the build-argument scanner\<close>

text \<open>
  What \<open>buildArgs\<close> does, for a file that can be read: with \<open>arg_line l\<close> saying that the
  first field of the line \<open>l\<close> is \<open>ARG\<close>, \<open>bare_arg_line l\<close> that \<open>ARG\<close> is its only field
  and \<open>arg_name l\<close> giving its second field up to the first \<open>=\<close>, the scanner returns the
  names of the \<open>ARG\<close> lines in order when no line is a bare \<open>ARG\<close>, and panics otherwise
  (lemma \<open>buildArgs_readable\<close>). A file that cannot be read gives the read error (lemma
  \<open>buildArgs_read_error\<close>).

  C8 says that \<open>buildArgs\<close> returns a result or an error for every readable file, also
  for one with a line whose only field is \<open>ARG\<close>, without an access out of range. The
  code checks that a line has a field, and then reads the second field of an \<open>ARG\<close> line
  without a check: on the file of the two lines \<open>FROM x\<close> and \<open>ARG\<close> it panics.
\<close>

theorem buildArgs_bare_ARG_panics:
  "ioutil_ReadFile ''Dockerfile'' (dockerfile_disk (''FROM x'' @ [CHR 0x0A] @ ''ARG'' @ [CHR 0x0A]))
     = Inr (''FROM x'' @ [CHR 0x0A] @ ''ARG'' @ [CHR 0x0A]) \<and>
   buildArgs ''Dockerfile'' (dockerfile_disk (''FROM x'' @ [CHR 0x0A] @ ''ARG'' @ [CHR 0x0A]))
     = Panic ''runtime error: index out of range''"
  by code_simp

text \<open>
  C7 says that \<open>buildArgs\<close> returns, for every readable file, the list of the argument
  names of its \<open>ARG\<close> lines. On a file with the lines \<open>ARG TOKEN\<close>, \<open>ARG\<close> and \<open>ARG B=1\<close>
  it returns nothing: it panics at the second line, by the same defect, and the run of
  Build that scans this file panics with it, before any command is given to the runner.
\<close>

theorem Build_panics_on_bare_ARG:
  "ScanLines (''ARG TOKEN'' @ [CHR 0x0A] @ ''ARG'' @ [CHR 0x0A] @ ''ARG B=1'' @ [CHR 0x0A])
     = [''ARG TOKEN'', ''ARG'', ''ARG B=1''] \<and>
   buildArgs ''/app/Dockerfile''
       (app_disk (''ARG TOKEN'' @ [CHR 0x0A] @ ''ARG'' @ [CHR 0x0A] @ ''ARG B=1'' @ [CHR 0x0A]))
     = Panic ''runtime error: index out of range'' \<and>
   (case Build (E_ok [svc ''a'' []]) 0 ''/app'' ''app'' opts_plain
           (world0 (app_disk (''ARG TOKEN'' @ [CHR 0x0A] @ ''ARG'' @ [CHR 0x0A] @ ''ARG B=1'' @ [CHR 0x0A]))) of
      Some (r, w) \<Rightarrow> (r, docker_cmds (trace w))
    | None \<Rightarrow> (Value None, []))
     = (Panic ''runtime error: index out of range'', [])"
  by code_simp


section \<open>C9: a copied regular file\<close>

text \<open>
  C9, as stated: the copy of a regular file has the content and the permission bits of
  the source, and its access time and its modification time are those of the source.

  The access time is not: \<open>copyFile\<close> gives \<^verbatim>\<open>os.Chtimes\<close> the modification time of
  the source twice. Below \<open>/c/f\<close> was last read at 5 and last written at 3; its copy
  \<open>/t/f\<close> made by \<open>copyDir\<close> has the access time 3.
\<close>

theorem copied_file_times_counterexample:
  "(case copyDir 2 ''/c'' ''/t'' tree_disk of
      Some (r, fs') \<Rightarrow> (r, lookup tree_disk (True, [''c'', ''f'']), lookup fs' (True, [''t'', ''f'']))
    | None \<Rightarrow> (None, None, None))
   = (None, Some (File ''hello'' 0x1A4 5 3), Some (File ''hello'' 0x1A4 3 3))"
  by code_simp

text \<open>
  C9, amended: for every regular file copied by the directory cache transfer, the
  destination file's content is that of the source, its permission bits are those of the
  source, and both its access time and its modification time are set to the modification
  time of the source.

  \<open>stat_node fs (path_of name)\<close> is the node the name refers to, through links. The
  source and the destination are different files (\<open>copyDir\<close> copies into a directory it
  has just made); the source is left as it was.
\<close>

theorem copied_file_matches_source:
  assumes "copyFile src dst fs = (None, fs')"
    and "resolve fs src \<noteq> resolve fs dst"
  shows "\<exists>c p a m.
           stat_node fs (path_of src) = Inr (File c p a m) \<and>
           stat_node fs' (path_of dst) = Inr (File c (p AND ModePerm) m m) \<and>
           stat_node fs' (path_of src) = Inr (File c p a m)"
proof -
  from copyFile_None [OF assms(1)] obtain inp out c p a m where
    rs: "resolve fs src = Inr inp" and rd: "resolve fs dst = Inr out"
    and orig: "lookup fs inp = Some (File c p a m)"
    and fs': "fs' = store out (if inp = out then File [] (p AND ModePerm) (clock fs) (clock fs)
                               else File c (p AND ModePerm) m m) fs"
    by blast
  from assms(2) rs rd have ne: "inp \<noteq> out" by auto
  have nl: "\<not> is_link (lookup fs out)"
    using rd by (auto simp: resolve_def dest: follow_result)
  show ?thesis
    using rs rd orig ne by (auto simp: stat_node_resolve fs' lookup_store resolve_store [OF nl])
qed

theorem copied_file_matches_source_witness:
  "fst (copyFile ''/c/f'' ''/c/g'' tree_disk) = None \<and>
   resolve tree_disk ''/c/f'' \<noteq> resolve tree_disk ''/c/g'' \<and>
   stat_node tree_disk (path_of ''/c/f'') = Inr (File ''hello'' 0x1A4 5 3) \<and>
   stat_node (snd (copyFile ''/c/f'' ''/c/g'' tree_disk)) (path_of ''/c/g'') = Inr (File ''hello'' 0x1A4 3 3) \<and>
   stat_node (snd (copyFile ''/c/f'' ''/c/g'' tree_disk)) (path_of ''/c/f'') = Inr (File ''hello'' 0x1A4 5 3)"
proof -
  have ok: "fst (copyFile ''/c/f'' ''/c/g'' tree_disk) = None"
    by code_simp
  then have run: "copyFile ''/c/f'' ''/c/g'' tree_disk = (None, snd (copyFile ''/c/f'' ''/c/g'' tree_disk))"
    by (simp add: prod_eq_iff)
  have ne: "resolve tree_disk ''/c/f'' \<noteq> resolve tree_disk ''/c/g''"
    by code_simp
  have src: "stat_node tree_disk (path_of ''/c/f'') = Inr (File ''hello'' 0x1A4 5 3)"
    by code_simp
  have perm: "(0x1A4 :: FileMode) AND ModePerm = 0x1A4"
    by (simp add: ModePerm_def)
  from copied_file_matches_source [OF run ne] src perm ok ne
  show ?thesis by auto
qed


section \<open>C10: failures of the cache write-back\<close>

text \<open>
  C10, as stated: every failure in the write-back, the removal of the old cache-store
  entry among them, is logged to the output sink.

  The result of the removal is dropped: below the process \<open>rm -rf /cache/h\<close> fails, it is
  the only thing that fails, and no line is sent to the stream.
\<close>

theorem stale_entry_removal_failure_counterexample:
  "fst (exec_Run (E_rmrf_fails [svc ''a'' []]) [''rm'', ''-rf'', ''/cache/h''] (app_disk ''FROM x'', ()))
     = Some (ErrorString ''exit status 1'') \<and>
   (case Build (E_rmrf_fails [svc ''a'' []]) 1 ''/app'' ''app'' opts_store (world0 (app_disk ''FROM x'')) of
      Some (r, w) \<Rightarrow> (r, exec_cmds (trace w), sent_lines (trace w))
    | None \<Rightarrow> (Panic [], [], []))
   = (Value None, [[''rm'', ''-rf'', ''/cache/h'']], [])"
  by code_simp

text \<open>
  C10, amended: when a cache-store root is configured, every failure in the post-build
  cache write-back step (temporary container creation, removal of the stale prior
  cache-store entry, extraction of the cache path, temporary container removal) is
  non-fatal: Build continues, records the hash-to-tag memo entry, and does not return an
  error because of it. A failure of the temporary container creation or of the temporary
  container removal is logged to the output sink as \<open>cache error:\<close> with the error, a
  failure of the extraction as \<open>ignoring build cache\<close>, and a failure of the removal of the
  stale entry is not logged.

  \<open>r1\<close>, \<open>r2\<close>, \<open>r3\<close> and \<open>r4\<close> are what the four steps return, in the worlds in which they
  are taken; the collaborators \<open>E\<close> are arbitrary, so each of them may be an error. The
  trace after the build command is the four steps in their order, with one line after
  each of the first, the third and the fourth that has failed, and nothing else.
\<close>

theorem write_back_failures_logged_not_fatal:
  assumes "CacheDir opts \<noteq> []"
    and "buildCache (hash_of E service) = None"
    and "restore_cache E n dir opts service w = Some w1"
    and "buildArgs (dockerFile_of dir service) (disk w1) = Value (Inr dba)"
    and "DefaultRunner_Run E (Docker (build_args_of E dir appName opts service dba)) (build_ropts opts) w1
           = (None, w2)"
    and "DefaultRunner_Run E (Docker [''create'', ''--name'', hash_of E service, Tag E service appName])
           (build_ropts opts) w2 = (r1, wa)"
    and "exec_Command_Run E [''rm'', ''-rf'', rcd_of E opts service]
           (case r1 of None \<Rightarrow> wa | Some err \<Rightarrow> send (''cache error: '' @ error_Error err) wa) = (r2, wb)"
    and "DefaultRunner_Run E (Docker [''cp'', hash_of E service @ '':/var/cache/build'', rcd_of E opts service])
           (build_ropts opts) wb = (r3, wc)"
    and "DefaultRunner_Run E (Docker [''rm'', hash_of E service]) (build_ropts opts)
           (case r3 of None \<Rightarrow> wc | Some err \<Rightarrow> send ''ignoring build cache'' wc) = (r4, wd)"
    and "w3 = (case r4 of None \<Rightarrow> wd | Some err \<Rightarrow> send (''cache error: '' @ error_Error err) wd)"
  shows "build_service E n dir appName opts service buildCache w =
           Some (Value None, buildCache(hash_of E service \<mapsto> Tag E service appName), w3) \<and>
         Build_builds E n dir appName opts (service # builds) buildCache w =
           Build_builds E n dir appName opts builds
             (buildCache(hash_of E service \<mapsto> Tag E service appName)) w3 \<and>
         trace w3 =
           trace w2 @ [RunEv (Docker [''create'', ''--name'', hash_of E service, Tag E service appName])
                         (build_ropts opts)]
             @ (case r1 of None \<Rightarrow> [] | Some err \<Rightarrow> [SendEv (''cache error: '' @ error_Error err)])
             @ [ExecEv [''rm'', ''-rf'', rcd_of E opts service],
                RunEv (Docker [''cp'', hash_of E service @ '':/var/cache/build'', rcd_of E opts service])
                  (build_ropts opts)]
             @ (case r3 of None \<Rightarrow> [] | Some err \<Rightarrow> [SendEv ''ignoring build cache''])
             @ [RunEv (Docker [''rm'', hash_of E service]) (build_ropts opts)]
             @ (case r4 of None \<Rightarrow> [] | Some err \<Rightarrow> [SendEv (''cache error: '' @ error_Error err)])"
proof -
  note steps = write_back_steps [OF assms(1) assms(6) assms(7) [unfolded rcd_of_def]
      assms(8) [unfolded rcd_of_def] assms(9)]
  have s: "build_service E n dir appName opts service buildCache w =
        Some (Value None, buildCache(hash_of E service \<mapsto> Tag E service appName), w3)"
    using assms(3,4,5) steps(1)
    by (simp add: build_service_miss [of buildCache E service, OF assms(2)] assms(10) hash_of_def)
  then have l: "Build_builds E n dir appName opts (service # builds) buildCache w =
        Build_builds E n dir appName opts builds
          (buildCache(hash_of E service \<mapsto> Tag E service appName)) w3"
    by simp
  from steps(2) have t: "trace w3 =
           trace w2 @ [RunEv (Docker [''create'', ''--name'', hash_of E service, Tag E service appName])
                         (build_ropts opts)]
             @ (case r1 of None \<Rightarrow> [] | Some err \<Rightarrow> [SendEv (''cache error: '' @ error_Error err)])
             @ [ExecEv [''rm'', ''-rf'', rcd_of E opts service],
                RunEv (Docker [''cp'', hash_of E service @ '':/var/cache/build'', rcd_of E opts service])
                  (build_ropts opts)]
             @ (case r3 of None \<Rightarrow> [] | Some err \<Rightarrow> [SendEv ''ignoring build cache''])
             @ [RunEv (Docker [''rm'', hash_of E service]) (build_ropts opts)]
             @ (case r4 of None \<Rightarrow> [] | Some err \<Rightarrow> [SendEv (''cache error: '' @ error_Error err)])"
    unfolding assms(10) rcd_of_def .
  from s l t show ?thesis by (intro conjI)
qed

theorem write_back_failures_logged_not_fatal_witness:
  "CacheDir opts_store \<noteq> [] \<and>
   Map.empty (hash_of (E_cache_fails [svc ''a'' []]) (svc ''a'' [])) = None \<and>
   restore_cache (E_cache_fails [svc ''a'' []]) 1 ''/app'' opts_store (svc ''a'' [])
       (world0 (app_disk ''FROM x'')) = Some (world0 (app_disk ''FROM x'')) \<and>
   buildArgs (dockerFile_of ''/app'' (svc ''a'' [])) (disk (world0 (app_disk ''FROM x''))) = Value (Inr []) \<and>
   (\<exists>w2 wa wb wc wd.
      DefaultRunner_Run (E_cache_fails [svc ''a'' []])
          (Docker (build_args_of (E_cache_fails [svc ''a'' []]) ''/app'' ''app'' opts_store (svc ''a'' []) []))
          (build_ropts opts_store) (world0 (app_disk ''FROM x'')) = (None, w2) \<and>
      DefaultRunner_Run (E_cache_fails [svc ''a'' []]) (Docker [''create'', ''--name'', ''h'', ''app/a''])
          (build_ropts opts_store) w2 = (Some (ErrorString ''exit status 1''), wa) \<and>
      exec_Command_Run (E_cache_fails [svc ''a'' []]) [''rm'', ''-rf'', ''/cache/h'']
          (send ''cache error: exit status 1'' wa) = (Some (ErrorString ''exit status 1''), wb) \<and>
      DefaultRunner_Run (E_cache_fails [svc ''a'' []]) (Docker [''cp'', ''h:/var/cache/build'', ''/cache/h''])
          (build_ropts opts_store) wb = (Some (ErrorString ''exit status 1''), wc) \<and>
      DefaultRunner_Run (E_cache_fails [svc ''a'' []]) (Docker [''rm'', ''h''])
          (build_ropts opts_store) (send ''ignoring build cache'' wc) = (Some (ErrorString ''exit status 1''), wd) \<and>
      build_service (E_cache_fails [svc ''a'' []]) 1 ''/app'' ''app'' opts_store (svc ''a'' []) Map.empty
          (world0 (app_disk ''FROM x''))
        = Some (Value None, Map.empty(''h'' \<mapsto> ''app/a''), send ''cache error: exit status 1'' wd) \<and>
      trace (send ''cache error: exit status 1'' wd) =
        trace w2 @ [RunEv (Docker [''create'', ''--name'', ''h'', ''app/a'']) (build_ropts opts_store),
                    SendEv ''cache error: exit status 1'',
                    ExecEv [''rm'', ''-rf'', ''/cache/h''],
                    RunEv (Docker [''cp'', ''h:/var/cache/build'', ''/cache/h'']) (build_ropts opts_store),
                    SendEv ''ignoring build cache'',
                    RunEv (Docker [''rm'', ''h'']) (build_ropts opts_store),
                    SendEv ''cache error: exit status 1'']) \<and>
   (case Build (E_cache_fails [svc ''a'' []]) 1 ''/app'' ''app'' opts_store (world0 (app_disk ''FROM x'')) of
      Some (r, w) \<Rightarrow> (r, sent_lines (trace w), docker_cmds (trace w))
    | None \<Rightarrow> (Panic [], [], []))
   = (Value None,
      [''cache error: exit status 1'', ''ignoring build cache'', ''cache error: exit status 1''],
      [[''build'', ''-f'', ''/app/Dockerfile'', ''-t'', ''app/a'', ''/app''],
       [''create'', ''--name'', ''h'', ''app/a''],
       [''cp'', ''h:/var/cache/build'', ''/cache/h''],
       [''rm'', ''h'']])"
proof -
  let ?E = "E_cache_fails [svc ''a'' []]"
  let ?w = "world0 (app_disk ''FROM x'')"
  let ?s = "svc ''a'' []"
  let ?cmd = "Docker (build_args_of ?E ''/app'' ''app'' opts_store ?s [])"
  let ?err = "ErrorString ''exit status 1''"
  have store: "CacheDir opts_store \<noteq> []"
    by (simp add: opts_store_def)
  have memo: "Map.empty (hash_of ?E ?s) = None"
    by simp
  have "case os_Stat (rcd_of ?E opts_store ?s) (disk ?w) of Inl err \<Rightarrow> True | Inr fi \<Rightarrow> False"
    by code_simp
  then obtain err where "os_Stat (rcd_of ?E opts_store ?s) (disk ?w) = Inl err"
    by (auto split: sum.splits)
  then have restore: "restore_cache ?E 1 ''/app'' opts_store ?s ?w = Some ?w"
    by (rule restore_cache_no_entry)
  have scan: "buildArgs (dockerFile_of ''/app'' ?s) (disk ?w) = Value (Inr [])"
    by code_simp
  have h: "hash_of ?E ?s = ''h''"
    by (simp add: hash_of_def E_cache_fails_def E_ok_def)
  have tg: "Tag ?E ?s ''app'' = ''app/a''"
    by (simp add: E_cache_fails_def E_ok_def svc_def)
  have rcd: "rcd_of ?E opts_store ?s = ''/cache/h''"
    by code_simp
  have msg: "''cache error: '' @ error_Error ?err = ''cache error: exit status 1''"
    by simp
  have "fst (DefaultRunner_Run ?E ?cmd (build_ropts opts_store) ?w) = None"
    by (simp add: DefaultRunner_Run_def E_cache_fails_def E_ok_def build_args_of_def split: prod.splits)
  then obtain w2 where build: "DefaultRunner_Run ?E ?cmd (build_ropts opts_store) ?w = (None, w2)"
    by (cases "DefaultRunner_Run ?E ?cmd (build_ropts opts_store) ?w") simp
  have "fst (DefaultRunner_Run ?E (Docker [''create'', ''--name'', ''h'', ''app/a'']) (build_ropts opts_store) w2)
          = Some ?err"
    by (simp add: DefaultRunner_Run_def E_cache_fails_def E_ok_def split: prod.splits)
  then obtain wa where create: "DefaultRunner_Run ?E (Docker [''create'', ''--name'', ''h'', ''app/a''])
      (build_ropts opts_store) w2 = (Some ?err, wa)"
    by (cases "DefaultRunner_Run ?E (Docker [''create'', ''--name'', ''h'', ''app/a'']) (build_ropts opts_store) w2")
       simp
  have "fst (exec_Command_Run ?E [''rm'', ''-rf'', ''/cache/h''] (send ''cache error: exit status 1'' wa))
          = Some ?err"
    by (simp add: exec_Command_Run_def E_cache_fails_def E_ok_def split: prod.splits)
  then obtain wb where rmrf: "exec_Command_Run ?E [''rm'', ''-rf'', ''/cache/h'']
      (send ''cache error: exit status 1'' wa) = (Some ?err, wb)"
    by (cases "exec_Command_Run ?E [''rm'', ''-rf'', ''/cache/h''] (send ''cache error: exit status 1'' wa)")
       simp
  have "fst (DefaultRunner_Run ?E (Docker [''cp'', ''h:/var/cache/build'', ''/cache/h'']) (build_ropts opts_store) wb)
          = Some ?err"
    by (simp add: DefaultRunner_Run_def E_cache_fails_def E_ok_def split: prod.splits)
  then obtain wc where cp: "DefaultRunner_Run ?E (Docker [''cp'', ''h:/var/cache/build'', ''/cache/h''])
      (build_ropts opts_store) wb = (Some ?err, wc)"
    by (cases "DefaultRunner_Run ?E (Docker [''cp'', ''h:/var/cache/build'', ''/cache/h'']) (build_ropts opts_store) wb")
       simp
  have "fst (DefaultRunner_Run ?E (Docker [''rm'', ''h'']) (build_ropts opts_store) (send ''ignoring build cache'' wc))
          = Some ?err"
    by (simp add: DefaultRunner_Run_def E_cache_fails_def E_ok_def split: prod.splits)
  then obtain wd where rm: "DefaultRunner_Run ?E (Docker [''rm'', ''h'']) (build_ropts opts_store)
      (send ''ignoring build cache'' wc) = (Some ?err, wd)"
    by (cases "DefaultRunner_Run ?E (Docker [''rm'', ''h'']) (build_ropts opts_store) (send ''ignoring build cache'' wc)")
       simp
  have run: "(case Build ?E 1 ''/app'' ''app'' opts_store ?w of
      Some (r, w) \<Rightarrow> (r, sent_lines (trace w), docker_cmds (trace w))
    | None \<Rightarrow> (Panic [], [], []))
   = (Value None,
      [''cache error: exit status 1'', ''ignoring build cache'', ''cache error: exit status 1''],
      [[''build'', ''-f'', ''/app/Dockerfile'', ''-t'', ''app/a'', ''/app''],
       [''create'', ''--name'', ''h'', ''app/a''],
       [''cp'', ''h:/var/cache/build'', ''/cache/h''],
       [''rm'', ''h'']])"
    by code_simp
  note wb = write_back_failures_logged_not_fatal [of opts_store Map.empty ?E ?s 1 "''/app''" ?w ?w "[]"
      "''app''" w2 "Some ?err" wa "Some ?err" wb "Some ?err" wc "Some ?err" wd
      "send ''cache error: exit status 1'' wd" "[]", unfolded h tg rcd, OF store _ restore scan
      build [unfolded h tg rcd]]
  have res: "build_service ?E 1 ''/app'' ''app'' opts_store ?s Map.empty ?w
        = Some (Value None, Map.empty(''h'' \<mapsto> ''app/a''), send ''cache error: exit status 1'' wd) \<and>
      trace (send ''cache error: exit status 1'' wd) =
        trace w2 @ [RunEv (Docker [''create'', ''--name'', ''h'', ''app/a'']) (build_ropts opts_store),
                    SendEv ''cache error: exit status 1'',
                    ExecEv [''rm'', ''-rf'', ''/cache/h''],
                    RunEv (Docker [''cp'', ''h:/var/cache/build'', ''/cache/h'']) (build_ropts opts_store),
                    SendEv ''ignoring build cache'',
                    RunEv (Docker [''rm'', ''h'']) (build_ropts opts_store),
                    SendEv ''cache error: exit status 1'']"
    using wb create rmrf cp rm by simp
  have ex: "\<exists>w2 wa wb wc wd.
      DefaultRunner_Run ?E ?cmd (build_ropts opts_store) ?w = (None, w2) \<and>
      DefaultRunner_Run ?E (Docker [''create'', ''--name'', ''h'', ''app/a''])
          (build_ropts opts_store) w2 = (Some ?err, wa) \<and>
      exec_Command_Run ?E [''rm'', ''-rf'', ''/cache/h'']
          (send ''cache error: exit status 1'' wa) = (Some ?err, wb) \<and>
      DefaultRunner_Run ?E (Docker [''cp'', ''h:/var/cache/build'', ''/cache/h''])
          (build_ropts opts_store) wb = (Some ?err, wc) \<and>
      DefaultRunner_Run ?E (Docker [''rm'', ''h''])
          (build_ropts opts_store) (send ''ignoring build cache'' wc) = (Some ?err, wd) \<and>
      build_service ?E 1 ''/app'' ''app'' opts_store ?s Map.empty ?w
        = Some (Value None, Map.empty(''h'' \<mapsto> ''app/a''), send ''cache error: exit status 1'' wd) \<and>
      trace (send ''cache error: exit status 1'' wd) =
        trace w2 @ [RunEv (Docker [''create'', ''--name'', ''h'', ''app/a'']) (build_ropts opts_store),
                    SendEv ''cache error: exit status 1'',
                    ExecEv [''rm'', ''-rf'', ''/cache/h''],
                    RunEv (Docker [''cp'', ''h:/var/cache/build'', ''/cache/h'']) (build_ropts opts_store),
                    SendEv ''ignoring build cache'',
                    RunEv (Docker [''rm'', ''h'']) (build_ropts opts_store),
                    SendEv ''cache error: exit status 1'']"
    by (rule exI [of _ w2], rule exI [of _ wa], rule exI [of _ wb], rule exI [of _ wc], rule exI [of _ wd])
       (intro conjI build create rmrf cp rm res [THEN conjunct1] res [THEN conjunct2])
  show ?thesis
    by (intro conjI store memo restore scan ex run)
qed

end
